theory Spec2Isabelle
  imports Main
begin

section \<open>The AIP policy engine (proxy/pkg/policy/engine.go)\<close>

text \<open>
  A shallow embedding of the policy engine: the policy document types, \<open>NewEngine\<close>,
  \<open>Load\<close>, \<open>IsAllowed\<close> and \<open>argToString\<close>.

  What the engine calls but does not define is a parameter of the model:
  \<^item> \<open>Unmarshal\<close> stands for \<open>yaml.Unmarshal\<close> into an \<open>AgentPolicy\<close>: the parsed
    document, or the parser's error text;
  \<^item> \<open>Compile\<close> stands for \<open>regexp.Compile\<close>: the compiled expression, or the error
    text. A compiled expression is modelled by what \<open>MatchString\<close> answers on it;
  \<^item> \<open>Sprintf_v\<close> stands for \<open>fmt.Sprintf("%v", _)\<close>, which \<open>argToString\<close> uses for
    \<open>float64\<close> values and for every value of an unlisted type; \<open>fmt_Sprintf_v\<close> writes
    it out, from the documentation of \<open>fmt\<close>, for the \<open>float64\<close> values that are integers;
  \<^item> \<open>lowerCase\<close> stands for the table of \<open>unicode.ToLower\<close> above ASCII, which
    \<open>strings.ToLower\<close> reads;
  \<^item> the order in which a \<open>range\<close> loop visits the entries of a Go map is not fixed by
    the language, so every such loop takes the entries in the order of this visit.
\<close>

subsection \<open>strings.TrimSpace and strings.ToLower\<close>

text \<open>
  A Go string is a sequence of bytes, here a \<open>string\<close>; a tool name is any such
  sequence. The two library functions read it as UTF-8, one rune (a code point, here a
  \<open>nat\<close>) at a time, as \<open>utf8.DecodeRuneInString\<close> and a \<open>range\<close> over a string do:
  a byte that starts no well-formed encoding is read as the rune \<open>U+FFFD\<close>, one byte
  wide. They are modelled from the documentation of the packages \<open>strings\<close>,
  \<open>unicode\<close> and \<open>unicode/utf8\<close>:
  \<^item> \<open>TrimSpace\<close> returns the string without its leading and trailing white space, as
    defined by Unicode (\<open>unicode.IsSpace\<close>);
  \<^item> \<open>ToLower\<close> maps every rune by \<open>unicode.ToLower\<close> and writes the result in UTF-8,
    so that an ill-formed byte comes out as \<open>U+FFFD\<close>.
  On the ASCII runes \<open>unicode.ToLower\<close> adds 32 to the letters A to Z. Above ASCII it
  reads the table \<open>unicode.CaseRanges\<close>; the table is data of the library and is the
  parameter \<open>lowerCase\<close> of the model.
\<close>

definition RuneError :: nat where
  "RuneError = 65533"

text \<open>A rune that UTF-8 can hold: no surrogate half, and at most \<open>U+10FFFF\<close>.\<close>

definition validRune :: "nat \<Rightarrow> bool" where
  "validRune r = (r < 55296 \<or> (57344 \<le> r \<and> r \<le> 1114111))"

text \<open>
  The number of continuation bytes the leading byte \<open>b0\<close> announces (0: no multi-byte
  encoding starts with \<open>b0\<close>), and the range the second byte must lie in.
\<close>

definition need :: "nat \<Rightarrow> nat" where
  "need b0 =
     (if 194 \<le> b0 \<and> b0 \<le> 223 then 1
      else if 224 \<le> b0 \<and> b0 \<le> 239 then 2
      else if 240 \<le> b0 \<and> b0 \<le> 244 then 3
      else 0)"

definition second_lo :: "nat \<Rightarrow> nat" where
  "second_lo b0 = (if b0 = 224 then 160 else if b0 = 240 then 144 else 128)"

definition second_hi :: "nat \<Rightarrow> nat" where
  "second_hi b0 = (if b0 = 237 then 159 else if b0 = 244 then 143 else 191)"

definition accept :: "nat \<Rightarrow> nat list \<Rightarrow> bool" where
  "accept b0 bs =
     (case bs of
        [] \<Rightarrow> False
      | b1 # rest \<Rightarrow>
          second_lo b0 \<le> b1 \<and> b1 \<le> second_hi b0 \<and> list_all (\<lambda>b. 128 \<le> b \<and> b \<le> 191) rest)"

definition lead_bits :: "nat \<Rightarrow> nat" where
  "lead_bits b0 = b0 - (if b0 < 224 then 192 else if b0 < 240 then 224 else 240)"

definition rune_value :: "nat \<Rightarrow> nat list \<Rightarrow> nat" where
  "rune_value b0 bs = foldl (\<lambda>acc b. acc * 64 + (b - 128)) (lead_bits b0) bs"

definition conts :: "nat \<Rightarrow> string \<Rightarrow> nat list" where
  "conts b0 t = map of_char (take (need b0) t)"

definition wellFormed :: "nat \<Rightarrow> string \<Rightarrow> bool" where
  "wellFormed b0 t =
     (need b0 \<noteq> 0 \<and> length (conts b0 t) = need b0 \<and> accept b0 (conts b0 t))"

text \<open>
  \<open>utf8.DecodeRuneInString\<close>: the first rune of the string and its width in bytes;
  \<open>(RuneError, 0)\<close> for the empty string, \<open>(RuneError, 1)\<close> where the encoding is
  ill-formed.
\<close>

definition DecodeRune :: "string \<Rightarrow> nat \<times> nat" where
  "DecodeRune s =
     (case s of
        [] \<Rightarrow> (RuneError, 0)
      | c # t \<Rightarrow>
          if (of_char c :: nat) < 128 then (of_char c, 1)
          else if wellFormed (of_char c) t
            then (rune_value (of_char c) (conts (of_char c) t), need (of_char c) + 1)
            else (RuneError, 1))"

text \<open>
  \<open>utf8.AppendRune\<close>, which \<open>strings.Builder.WriteRune\<close> calls: the UTF-8 encoding of
  the rune, that of \<open>U+FFFD\<close> for a rune UTF-8 cannot hold.
\<close>

definition EncodeRune :: "nat \<Rightarrow> string" where
  "EncodeRune r =
     (if r < 128 then [char_of r]
      else if r < 2048 then [char_of (192 + r div 64), char_of (128 + r mod 64)]
      else if (55296 \<le> r \<and> r < 57344) \<or> 1114111 < r
        then [char_of (239::nat), char_of (191::nat), char_of (189::nat)]
      else if r < 65536
        then [char_of (224 + r div 4096), char_of (128 + r div 64 mod 64),
              char_of (128 + r mod 64)]
      else [char_of (240 + r div 262144), char_of (128 + r div 4096 mod 64),
            char_of (128 + r div 64 mod 64), char_of (128 + r mod 64)])"

text \<open>
  The runes of a string from left to right, each with the bytes it was read from:
  what a \<open>range\<close> over the string visits.
\<close>

function items :: "string \<Rightarrow> (nat \<times> string) list" where
  "items s =
     (if s = [] then []
      else (fst (DecodeRune s), take (snd (DecodeRune s)) s) #
           items (drop (snd (DecodeRune s)) s))"
  by pat_completeness auto
termination
proof (relation "measure length")
  show "wf (measure length)" by simp
next
  fix s :: string
  assume "s \<noteq> []"
  then obtain c t where s: "s = c # t" by (cases s) auto
  have "0 < snd (DecodeRune (c # t))" by (simp add: DecodeRune_def)
  then show "(drop (snd (DecodeRune s)) s, s) \<in> measure length" by (simp add: s)
qed

declare items.simps [simp del]

text \<open>\<open>unicode.IsSpace\<close>: the runes with Unicode's White Space property.\<close>

definition IsSpace :: "nat \<Rightarrow> bool" where
  "IsSpace r =
     ((9 \<le> r \<and> r \<le> 13) \<or> r = 32 \<or> r = 133 \<or> r = 160 \<or> r = 5760 \<or>
      (8192 \<le> r \<and> r \<le> 8202) \<or> r = 8232 \<or> r = 8233 \<or> r = 8239 \<or> r = 8287 \<or>
      r = 12288)"

definition trimItems :: "(nat \<times> string) list \<Rightarrow> (nat \<times> string) list" where
  "trimItems xs =
     rev (dropWhile (\<lambda>x. IsSpace (fst x)) (rev (dropWhile (\<lambda>x. IsSpace (fst x)) xs)))"

definition TrimSpace :: "string \<Rightarrow> string" where
  "TrimSpace s = concat (map snd (trimItems (items s)))"

text \<open>\<open>unicode.ToLower\<close>, reading the table \<open>lowerCase\<close> above ASCII.\<close>

definition ToLower_rune :: "(nat \<Rightarrow> nat) \<Rightarrow> nat \<Rightarrow> nat" where
  "ToLower_rune lowerCase r =
     (if r < 128 then (if 65 \<le> r \<and> r \<le> 90 then r + 32 else r) else lowerCase r)"

definition ToLower :: "(nat \<Rightarrow> nat) \<Rightarrow> string \<Rightarrow> string" where
  "ToLower lowerCase s =
     concat (map (\<lambda>x. EncodeRune (ToLower_rune lowerCase (fst x))) (items s))"

subsection \<open>Policy configuration types\<close>

text \<open>A \<open>*regexp.Regexp\<close>, as the answer of its \<open>MatchString\<close>.\<close>

type_synonym Regexp = "string \<Rightarrow> bool"

record PolicyMetadata =
  Name :: string
  Version :: string
  Owner :: string

text \<open>
  \<open>AllowArgs\<close> and \<open>compiledArgs\<close> are Go maps; a nil map reads as the empty map.
\<close>

record ToolRule =
  Tool :: string
  AllowArgs :: "string \<rightharpoonup> string"
  compiledArgs :: "string \<rightharpoonup> Regexp"

record PolicySpec =
  AllowedTools :: "string list"
  ToolRules :: "ToolRule list"
  DeniedTools :: "string list"

record AgentPolicy =
  APIVersion :: string
  Kind :: string
  Metadata :: PolicyMetadata
  Spec :: PolicySpec

subsection \<open>The engine\<close>

text \<open>
  \<open>policy\<close> is a pointer (\<open>None\<close> is nil). \<open>allowedSet\<close> is a \<open>map[string]struct{}\<close>,
  that is a set of keys; \<open>IsAllowed\<close> tests it against nil, so \<open>None\<close> is the nil map.
  \<open>toolRules\<close> is only ever read by key, where a nil map and an empty one agree.
\<close>

record Engine =
  policy :: "AgentPolicy option"
  allowedSet :: "string set option"
  toolRules :: "string \<rightharpoonup> ToolRule"

definition NewEngine :: Engine where
  "NewEngine = \<lparr>policy = None, allowedSet = Some {}, toolRules = Map.empty\<rparr>"

text \<open>The errors of \<open>Load\<close>, one constructor per \<open>fmt.Errorf\<close> with its arguments:
  \<^item> \<open>ParseError err\<close>: "failed to parse policy YAML: %w";
  \<^item> \<open>MissingField f\<close>: "policy missing required field: f";
  \<^item> \<open>UnexpectedKind k\<close>: "unexpected kind %q, expected AgentPolicy";
  \<^item> \<open>InvalidRegex tool arg err\<close>: "invalid regex for tool %q arg %q: %w".\<close>

datatype error =
  ParseError string
| MissingField string
| UnexpectedKind string
| InvalidRegex string string string

text \<open>The first loop of \<open>Load\<close>: every allowed tool, normalised, goes into the set.\<close>

fun buildAllowedSet :: "(nat \<Rightarrow> nat) \<Rightarrow> string list \<Rightarrow> string set \<Rightarrow> string set" where
  "buildAllowedSet lowerCase [] aset = aset"
| "buildAllowedSet lowerCase (tool # tools) aset =
     (let normalized = ToLower lowerCase (TrimSpace tool)
      in buildAllowedSet lowerCase tools (insert normalized aset))"

text \<open>
  The inner loop of \<open>Load\<close> over \<open>rule.AllowArgs\<close>, the entries in the order the
  \<open>range\<close> visits them. The first pattern that does not compile ends the load.
\<close>

fun compileArgs ::
  "(string \<Rightarrow> string + Regexp) \<Rightarrow> string \<Rightarrow> (string \<times> string) list \<Rightarrow>
   (string \<rightharpoonup> Regexp) \<Rightarrow> error + (string \<rightharpoonup> Regexp)" where
  "compileArgs Compile tool [] cargs = Inr cargs"
| "compileArgs Compile tool ((argName, pattern) # rest) cargs =
     (case Compile pattern of
        Inl err \<Rightarrow> Inl (InvalidRegex tool argName err)
      | Inr compiled \<Rightarrow> compileArgs Compile tool rest (cargs(argName \<mapsto> compiled)))"

text \<open>
  The loop of \<open>Load\<close> over \<open>policy.Spec.ToolRules\<close>. \<open>aset\<close> and \<open>rmap\<close> are the maps
  that \<open>e.allowedSet\<close> and \<open>e.toolRules\<close> refer to: \<open>Load\<close> has stored them in the engine
  before the loop starts, so what the loop has written when it returns early is what the
  engine holds. \<open>order i\<close> lists the entries of the \<open>i\<close>-th rule's \<open>AllowArgs\<close> as the
  \<open>range\<close> visits them. The last component is the slice of rules with their
  \<open>compiledArgs\<close> filled in (\<open>rule\<close> points into the slice).
\<close>

fun compileRules ::
  "(nat \<Rightarrow> nat) \<Rightarrow> (string \<Rightarrow> string + Regexp) \<Rightarrow> (nat \<Rightarrow> (string \<times> string) list) \<Rightarrow> nat \<Rightarrow>
   ToolRule list \<Rightarrow> string set \<Rightarrow> (string \<rightharpoonup> ToolRule) \<Rightarrow>
   error option \<times> string set \<times> (string \<rightharpoonup> ToolRule) \<times> ToolRule list" where
  "compileRules lowerCase Compile order i [] aset rmap = (None, aset, rmap, [])"
| "compileRules lowerCase Compile order i (rule # rest) aset rmap =
     (let normalized = ToLower lowerCase (TrimSpace (Tool rule)) in
      case compileArgs Compile (Tool rule) (order i) Map.empty of
        Inl err \<Rightarrow> (Some err, aset, rmap, rule # rest)
      | Inr cargs \<Rightarrow>
          (let rule' = rule\<lparr>compiledArgs := cargs\<rparr> in
           case compileRules lowerCase Compile order (Suc i) rest
                  (insert normalized aset) (rmap(normalized \<mapsto> rule')) of
             (err, aset', rmap', rest') \<Rightarrow> (err, aset', rmap', rule' # rest')))"

text \<open>
  \<open>Load\<close> returns its error (\<open>None\<close> is nil) and the engine as the call leaves it.
  A parse or schema error returns before the engine is touched. After that the two
  maps of the engine are replaced and filled, and \<open>e.policy\<close> is set last, on success
  only.
\<close>

definition Load ::
  "(nat \<Rightarrow> nat) \<Rightarrow> (string \<Rightarrow> string + AgentPolicy) \<Rightarrow> (string \<Rightarrow> string + Regexp) \<Rightarrow>
   (nat \<Rightarrow> (string \<times> string) list) \<Rightarrow> Engine \<Rightarrow> string \<Rightarrow> error option \<times> Engine" where
  "Load lowerCase Unmarshal Compile order e data =
     (case Unmarshal data of
        Inl err \<Rightarrow> (Some (ParseError err), e)
      | Inr pol \<Rightarrow>
          if APIVersion pol = [] then (Some (MissingField ''apiVersion''), e)
          else if Kind pol \<noteq> ''AgentPolicy'' then (Some (UnexpectedKind (Kind pol)), e)
          else
            (let aset = buildAllowedSet lowerCase (AllowedTools (Spec pol)) {} in
             case compileRules lowerCase Compile order 0 (ToolRules (Spec pol)) aset Map.empty of
               (Some err, aset', rmap', rules') \<Rightarrow>
                 (Some err, e\<lparr>allowedSet := Some aset', toolRules := rmap'\<rparr>)
             | (None, aset', rmap', rules') \<Rightarrow>
                 (None, e\<lparr>policy := Some (pol\<lparr>Spec := (Spec pol)\<lparr>ToolRules := rules'\<rparr>\<rparr>),
                          allowedSet := Some aset', toolRules := rmap'\<rparr>)))"

subsection \<open>The decision\<close>

record ValidationResult =
  Allowed :: bool
  FailedArg :: string
  FailedRule :: string

text \<open>
  An argument value (\<open>any\<close>): the four types \<open>argToString\<close> lists, and the rest.
  A \<open>float64\<close> and a value of another type are only ever handed to \<open>Sprintf_v\<close>.

  A \<open>float64\<close> is a finite number, plus or minus \<open>m\<close> times a power \<open>e\<close> of two, an
  infinity or a NaN. Every finite IEEE-754 double has this form with \<open>m\<close> below
  \<open>2^53\<close> and \<open>e\<close> from -1074 to 971 (\<open>is_float64\<close>).
\<close>

datatype float64 = Finite bool nat int | Infinite bool | NaN


typedecl go_value

datatype any =
  StringVal string
| Float64Val float64
| IntVal int
| BoolVal bool
| OtherVal go_value

text \<open>\<open>fmt.Sprintf("%t", b)\<close> and \<open>fmt.Sprintf("%d", i)\<close>.\<close>

definition Sprintf_t :: "bool \<Rightarrow> string" where
  "Sprintf_t b = (if b then ''true'' else ''false'')"

fun decimal :: "nat \<Rightarrow> string" where
  "decimal n =
     (if n < 10 then [char_of (48 + n)]
      else decimal (n div 10) @ [char_of (48 + n mod 10)])"

declare decimal.simps [simp del]

definition Sprintf_d :: "int \<Rightarrow> string" where
  "Sprintf_d i = (if i < 0 then CHR ''-'' # decimal (nat (- i)) else decimal (nat i))"

definition argToString :: "(any \<Rightarrow> string) \<Rightarrow> any \<Rightarrow> string" where
  "argToString Sprintf_v v =
     (case v of
        StringVal val \<Rightarrow> val
      | Float64Val val \<Rightarrow> Sprintf_v v
      | IntVal val \<Rightarrow> Sprintf_d val
      | BoolVal val \<Rightarrow> Sprintf_t val
      | OtherVal val \<Rightarrow> Sprintf_v v)"









text \<open>A read of a Go \<open>map[string]string\<close>: the empty string for a missing key.\<close>

definition lookupStr :: "(string \<rightharpoonup> string) \<Rightarrow> string \<Rightarrow> string" where
  "lookupStr m k = (case m k of None \<Rightarrow> [] | Some v \<Rightarrow> v)"

text \<open>
  Step 3 of \<open>IsAllowed\<close>: the loop over \<open>rule.compiledArgs\<close>, the entries in the order
  the \<open>range\<close> visits them. The first argument that is missing or does not match ends
  the loop with a denial.
\<close>

fun checkArgs ::
  "(any \<Rightarrow> string) \<Rightarrow> ToolRule \<Rightarrow> (string \<rightharpoonup> any) \<Rightarrow> (string \<times> Regexp) list \<Rightarrow>
   ValidationResult" where
  "checkArgs Sprintf_v rule args [] = \<lparr>Allowed = True, FailedArg = [], FailedRule = []\<rparr>"
| "checkArgs Sprintf_v rule args ((argName, compiledRegex) # rest) =
     (case args argName of
        None \<Rightarrow>
          \<lparr>Allowed = False, FailedArg = argName,
           FailedRule = lookupStr (AllowArgs rule) argName\<rparr>
      | Some argValue \<Rightarrow>
          (let strValue = argToString Sprintf_v argValue in
           if \<not> compiledRegex strValue
           then \<lparr>Allowed = False, FailedArg = argName,
                 FailedRule = lookupStr (AllowArgs rule) argName\<rparr>
           else checkArgs Sprintf_v rule args rest))"

text \<open>
  \<open>IsAllowed\<close>. \<open>visit\<close> lists the entries of the found rule's \<open>compiledArgs\<close> in the
  order this call's \<open>range\<close> visits them.
\<close>

definition IsAllowed ::
  "(nat \<Rightarrow> nat) \<Rightarrow> (any \<Rightarrow> string) \<Rightarrow> (string \<times> Regexp) list \<Rightarrow> Engine \<Rightarrow> string \<Rightarrow>
   (string \<rightharpoonup> any) \<Rightarrow> ValidationResult" where
  "IsAllowed lowerCase Sprintf_v visit e toolName args =
     (case allowedSet e of
        None \<Rightarrow> \<lparr>Allowed = False, FailedArg = [], FailedRule = []\<rparr>
      | Some aset \<Rightarrow>
          (let normalized = ToLower lowerCase (TrimSpace toolName) in
           if normalized \<notin> aset
           then \<lparr>Allowed = False, FailedArg = [], FailedRule = []\<rparr>
           else
             (case toolRules e normalized of
                None \<Rightarrow> \<lparr>Allowed = True, FailedArg = [], FailedRule = []\<rparr>
              | Some rule \<Rightarrow>
                  if compiledArgs rule = Map.empty
                  then \<lparr>Allowed = True, FailedArg = [], FailedRule = []\<rparr>
                  else checkArgs Sprintf_v rule args visit)))"

text \<open>
  \<open>entries m kvs\<close>: the list \<open>kvs\<close> is a visiting order of the Go map \<open>m\<close>, every
  entry once.
\<close>

definition entries :: "('k \<rightharpoonup> 'v) \<Rightarrow> ('k \<times> 'v) list \<Rightarrow> bool" where
  "entries m kvs = (distinct (map fst kvs) \<and> map_of kvs = m)"

subsection \<open>Notions the statements below use\<close>

text \<open>The normalisation that \<open>Load\<close> and \<open>IsAllowed\<close> both write out.\<close>

abbreviation norm_name :: "(nat \<Rightarrow> nat) \<Rightarrow> string \<Rightarrow> string" where
  "norm_name lowerCase t \<equiv> ToLower lowerCase (TrimSpace t)"

text \<open>
  What is asked of the table of \<open>unicode.ToLower\<close> where a statement depends on it: on
  every rune UTF-8 can hold, the mapping gives such a rune, leaves its own results alone,
  and turns nothing that is not white space into white space. The lower-case mapping of
  the Unicode character database, from which \<open>unicode.CaseRanges\<close> is generated, maps
  letters to lower-case letters and leaves every other rune alone.

  \<open>latin1_lower\<close> is \<open>unicode.ToLower\<close> on the runes below \<open>U+0100\<close>: the letters from
  \<open>U+00C0\<close> to \<open>U+00DE\<close>, the sign \<open>U+00D7\<close> apart, are mapped 32 up. It leaves the
  runes from \<open>U+0100\<close> on alone; the names of the concrete runs below hold no letter
  from there.
\<close>

definition caseTable :: "(nat \<Rightarrow> nat) \<Rightarrow> bool" where
  "caseTable lowerCase =
     (\<forall>r. validRune r \<longrightarrow>
        validRune (ToLower_rune lowerCase r) \<and>
        ToLower_rune lowerCase (ToLower_rune lowerCase r) = ToLower_rune lowerCase r \<and>
        (\<not> IsSpace r \<longrightarrow> \<not> IsSpace (ToLower_rune lowerCase r)))"

definition latin1_lower :: "nat \<Rightarrow> nat" where
  "latin1_lower r = (if 192 \<le> r \<and> r \<le> 222 \<and> r \<noteq> 215 then r + 32 else r)"

text \<open>
  \<open>rangeOrders order i rules\<close>: for every rule of the slice, counted from \<open>i\<close>, the
  list \<open>order\<close> gives is a visiting order of that rule's \<open>AllowArgs\<close>.
  \<open>loadOrders\<close> says so for the document that \<open>Load\<close> parses.
\<close>

fun rangeOrders :: "(nat \<Rightarrow> (string \<times> string) list) \<Rightarrow> nat \<Rightarrow> ToolRule list \<Rightarrow> bool" where
  "rangeOrders order i [] = True"
| "rangeOrders order i (rule # rest) =
     (entries (AllowArgs rule) (order i) \<and> rangeOrders order (Suc i) rest)"

definition loadOrders ::
  "(string \<Rightarrow> string + AgentPolicy) \<Rightarrow> (nat \<Rightarrow> (string \<times> string) list) \<Rightarrow> string \<Rightarrow> bool" where
  "loadOrders Unmarshal order data =
     (case Unmarshal data of
        Inl err \<Rightarrow> True
      | Inr pol \<Rightarrow> rangeOrders order 0 (ToolRules (Spec pol)))"

text \<open>The map of compiled expressions that belongs to a map of patterns.\<close>

definition compiled_of ::
  "(string \<Rightarrow> string + Regexp) \<Rightarrow> (string \<rightharpoonup> string) \<Rightarrow> (string \<rightharpoonup> Regexp)" where
  "compiled_of Compile m =
     (\<lambda>k. case m k of
             None \<Rightarrow> None
           | Some p \<Rightarrow> (case Compile p of Inl err \<Rightarrow> None | Inr rx \<Rightarrow> Some rx))"

definition rule_compiled :: "(string \<Rightarrow> string + Regexp) \<Rightarrow> ToolRule \<Rightarrow> bool" where
  "rule_compiled Compile r =
     (compiledArgs r = compiled_of Compile (AllowArgs r) \<and>
      dom (compiledArgs r) = dom (AllowArgs r))"

text \<open>
  \<open>passes\<close>: the argument \<open>k\<close> is present in \<open>args\<close> and the compiled expression
  matches its text form, which is the test one round of the loop of \<open>checkArgs\<close> makes.
\<close>

definition passes ::
  "(any \<Rightarrow> string) \<Rightarrow> (string \<rightharpoonup> any) \<Rightarrow> string \<Rightarrow> Regexp \<Rightarrow> bool" where
  "passes Sprintf_v args k rx =
     (case args k of None \<Rightarrow> False | Some v \<Rightarrow> rx (argToString Sprintf_v v))"

text \<open>
  \<open>argPasses\<close>: the argument \<open>A\<close> is present in \<open>args\<close> and its text form matches
  the pattern \<open>P\<close>.
\<close>

definition argPasses ::
  "(string \<Rightarrow> string + Regexp) \<Rightarrow> (any \<Rightarrow> string) \<Rightarrow> (string \<rightharpoonup> any) \<Rightarrow> string \<Rightarrow>
   string \<Rightarrow> bool" where
  "argPasses Compile Sprintf_v args A P =
     (case args A of
        None \<Rightarrow> False
      | Some v \<Rightarrow>
          (case Compile P of Inl err \<Rightarrow> False | Inr rx \<Rightarrow> rx (argToString Sprintf_v v)))"

definition allow :: ValidationResult where
  "allow = \<lparr>Allowed = True, FailedArg = [], FailedRule = []\<rparr>"

subsection \<open>Concrete documents and a concrete pattern compiler\<close>

text \<open>
  \<open>prefixCompile\<close> is an instance of \<open>Compile\<close> for the concrete runs below. It accepts
  the patterns \<open>^lit\<close> where \<open>lit\<close> is made of letters, digits and the characters
  \<open>/ : _\<close>, and matches them as \<open>regexp\<close> does: the text starts with \<open>lit\<close>. It rejects
  every other pattern; the only such pattern used below is \<open>[invalid(regex\<close>, the one of
  \<open>TestInvalidRegexReturnsError\<close>, which \<open>regexp.Compile\<close> rejects too (missing closing
  bracket).
\<close>

definition plainChar :: "char \<Rightarrow> bool" where
  "plainChar c =
     (let n = (of_char c :: nat) in
      (48 \<le> n \<and> n \<le> 58) \<or> (65 \<le> n \<and> n \<le> 90) \<or> (97 \<le> n \<and> n \<le> 122) \<or> n = 47 \<or> n = 95)"

definition hasPrefix :: "string \<Rightarrow> Regexp" where
  "hasPrefix lit s = (take (length lit) s = lit)"

definition prefixCompile :: "string \<Rightarrow> string + Regexp" where
  "prefixCompile p =
     (case p of
        [] \<Rightarrow> Inl ''error parsing regexp''
      | c # lit \<Rightarrow>
          if c = CHR ''^'' \<and> list_all plainChar lit
          then Inr (hasPrefix lit)
          else Inl ''error parsing regexp'')"

text \<open>A document with the two required fields set, and a rule as the parser leaves it.\<close>

definition policy_of :: "string list \<Rightarrow> ToolRule list \<Rightarrow> AgentPolicy" where
  "policy_of tools rules =
     \<lparr>APIVersion = ''aip.io/v1alpha1'', Kind = ''AgentPolicy'',
      Metadata = \<lparr>Name = ''test'', Version = [], Owner = []\<rparr>,
      Spec = \<lparr>AllowedTools = tools, ToolRules = rules, DeniedTools = []\<rparr>\<rparr>"

definition rule_of :: "string \<Rightarrow> (string \<times> string) list \<Rightarrow> ToolRule" where
  "rule_of tool kvs = \<lparr>Tool = tool, AllowArgs = map_of kvs, compiledArgs = Map.empty\<rparr>"

text \<open>
  \<open>allowed_tools: [safe_tool]\<close> and the rule of \<open>TestInvalidRegexReturnsError\<close>:
  \<open>tool_rules: [{tool: bad_tool, allow_args: {pattern: "[invalid(regex"}}]\<close>.
\<close>

definition bad_rule :: ToolRule where
  "bad_rule = rule_of ''bad_tool'' [(''pattern'', ''[invalid(regex'')]"

definition bad_policy :: AgentPolicy where
  "bad_policy = policy_of [''safe_tool''] [bad_rule]"

text \<open>\<open>allowed_tools: [old_tool]\<close>, no rules.\<close>

definition old_policy :: AgentPolicy where
  "old_policy = policy_of [''old_tool''] []"

text \<open>
  \<open>allowed_tools: [safe_tool]\<close> and
  \<open>tool_rules: [{tool: Run_Query, allow_args: {database: "^prod", query: "^SELECT"}},
                {tool: ping}]\<close>.
\<close>

definition query_rule :: ToolRule where
  "query_rule = rule_of ''Run_Query'' [(''database'', ''^prod''), (''query'', ''^SELECT'')]"

definition query_policy :: AgentPolicy where
  "query_policy = policy_of [''safe_tool''] [query_rule, rule_of ''ping'' []]"

definition query_order :: "nat \<Rightarrow> (string \<times> string) list" where
  "query_order i =
     (if i = 0 then [(''query'', ''^SELECT''), (''database'', ''^prod'')] else [])"


text \<open>
  An \<open>Unmarshal\<close> whose input is the text of the document \<open>pol\<close>, and a \<open>Sprintf_v\<close>
  for runs whose arguments are all text: it is never called there.
\<close>

definition parsed :: "AgentPolicy \<Rightarrow> string \<Rightarrow> string + AgentPolicy" where
  "parsed pol data = Inr pol"

definition nil_Sprintf_v :: "any \<Rightarrow> string" where
  "nil_Sprintf_v v = ''<nil>''"

text \<open>The engines after \<open>NewEngine\<close> and one \<open>Load\<close> of \<open>query_policy\<close>, of \<open>old_policy\<close>.\<close>

definition query_engine :: Engine where
  "query_engine = snd (Load latin1_lower (parsed query_policy) prefixCompile query_order NewEngine [])"

definition old_engine :: Engine where
  "old_engine = snd (Load latin1_lower (parsed old_policy) prefixCompile (\<lambda>i. []) NewEngine [])"

definition bad_order :: "nat \<Rightarrow> (string \<times> string) list" where
  "bad_order i = (if i = 0 then [(''pattern'', ''[invalid(regex'')] else [])"


section \<open>Reading and writing UTF-8\<close>

lemma DecodeRune_width_pos: "s \<noteq> [] \<Longrightarrow> 0 < snd (DecodeRune s)"
  by (cases s) (simp_all add: DecodeRune_def)

lemma wellFormed_length: "wellFormed b0 t \<Longrightarrow> need b0 \<le> length t"
  by (auto simp: wellFormed_def conts_def min_def split: if_splits)

lemma DecodeRune_width_le: "snd (DecodeRune s) \<le> length s"
  by (cases s) (auto simp: DecodeRune_def dest: wellFormed_length)

lemma conts_append: "need b0 \<le> length t \<Longrightarrow> conts b0 (t @ b) = conts b0 t"
  by (simp add: conts_def)

lemma wellFormed_append: "need b0 \<le> length t \<Longrightarrow> wellFormed b0 (t @ b) = wellFormed b0 t"
  by (simp only: wellFormed_def conts_append)

lemma items_Nil [simp]: "items [] = []"
  by (simp add: items.simps)

lemma concat_items: "concat (map snd (items s)) = s"
proof (induction s rule: items.induct)
  case (1 s)
  show ?case
  proof (cases "s = []")
    case True then show ?thesis by simp
  next
    case False
    with 1 show ?thesis by (subst items.simps) simp
  qed
qed

text \<open>Cutting the text after the bytes a rune takes does not change the rune.\<close>

lemma DecodeRune_append:
  assumes "DecodeRune (a @ b) = (r, w)" and "w \<le> length a"
  shows "DecodeRune a = (r, w)"
proof (cases a)
  case Nil
  with assms have "w = 0" by simp
  with assms DecodeRune_width_pos[of "a @ b"] have "a @ b = []" by (cases "a @ b = []") auto
  with assms Nil show ?thesis by simp
next
  case (Cons c t)
  let ?b0 = "of_char c :: nat"
  show ?thesis
  proof (cases "?b0 < 128")
    case True
    with assms Cons show ?thesis by (simp add: DecodeRune_def)
  next
    case False
    show ?thesis
    proof (cases "wellFormed ?b0 (t @ b)")
      case True
      with assms(1) Cons False have rw: "r = rune_value ?b0 (conts ?b0 (t @ b))" "w = need ?b0 + 1"
        by (simp_all add: DecodeRune_def)
      with assms(2) Cons have k: "need ?b0 \<le> length t" by simp
      from True have "wellFormed ?b0 t" by (simp only: wellFormed_append[OF k])
      with rw Cons False show ?thesis by (simp add: DecodeRune_def conts_append[OF k])
    next
      case bad: False
      with assms(1) Cons False have rw: "r = RuneError" "w = 1"
        by (simp_all add: DecodeRune_def)
      have "\<not> wellFormed ?b0 t"
      proof
        assume ok: "wellFormed ?b0 t"
        then have "need ?b0 \<le> length t" by (rule wellFormed_length)
        then have "wellFormed ?b0 (t @ b) = wellFormed ?b0 t" by (rule wellFormed_append)
        with ok bad show False by blast
      qed
      with rw Cons False show ?thesis by (simp add: DecodeRune_def)
    qed
  qed
qed


lemma items_Cons:
  "s \<noteq> [] \<Longrightarrow>
   items s = (fst (DecodeRune s), take (snd (DecodeRune s)) s) # items (drop (snd (DecodeRune s)) s)"
  by (subst items.simps) simp

lemma items_eq_Nil: "items s = [] \<longleftrightarrow> s = []"
  by (subst items.simps) simp

lemma items_step:
  assumes "DecodeRune (c @ p) = (r, length c)" and "c \<noteq> []"
  shows "items (c @ p) = (r, c) # items p"
  using assms by (subst items.simps) simp

lemma items_prefix: "items s = xs @ ys \<Longrightarrow> items (concat (map snd xs)) = xs"
proof (induction xs arbitrary: s)
  case Nil
  then show ?case by simp
next
  case (Cons x xs)
  from Cons.prems have ne: "s \<noteq> []" by (auto simp: items_eq_Nil[symmetric])
  let ?w = "snd (DecodeRune s)"
  let ?c = "take ?w s"
  let ?rest = "drop ?w s"
  from Cons.prems items_Cons[OF ne] have x: "x = (fst (DecodeRune s), ?c)"
    and rest: "items ?rest = xs @ ys" by simp_all
  let ?p = "concat (map snd xs)"
  from Cons.IH[OF rest] have ih: "items ?p = xs" .
  have "?rest = concat (map snd (items ?rest))" by (simp add: concat_items)
  also have "\<dots> = ?p @ concat (map snd ys)" by (simp add: rest)
  finally have r: "?rest = ?p @ concat (map snd ys)" .
  have wl: "?w \<le> length s" by (rule DecodeRune_width_le)
  then have lc: "length ?c = ?w" by simp
  from ne have wpos: "0 < ?w" by (rule DecodeRune_width_pos)
  with lc have cne: "?c \<noteq> []" by auto
  have "s = ?c @ ?rest" by simp
  with r have s: "s = (?c @ ?p) @ concat (map snd ys)" by simp
  have "DecodeRune ((?c @ ?p) @ concat (map snd ys)) = (fst (DecodeRune s), ?w)"
    using s by simp
  then have "DecodeRune (?c @ ?p) = (fst (DecodeRune s), ?w)"
    by (rule DecodeRune_append) (use wl in \<open>simp add: min_def\<close>)
  then have "DecodeRune (?c @ ?p) = (fst (DecodeRune s), length ?c)" by (simp only: lc)
  from items_step[OF this cne] ih x show ?case by simp
qed

lemma items_suffix:
  "items s = xs @ ys \<Longrightarrow> items (drop (length (concat (map snd xs))) s) = ys"
proof (induction xs arbitrary: s)
  case Nil
  then show ?case by simp
next
  case (Cons x xs)
  from Cons.prems have ne: "s \<noteq> []" by (auto simp: items_eq_Nil[symmetric])
  let ?w = "snd (DecodeRune s)"
  from Cons.prems items_Cons[OF ne] have x: "snd x = take ?w s"
    and rest: "items (drop ?w s) = xs @ ys" by auto
  have wl: "?w \<le> length s" by (rule DecodeRune_width_le)
  from Cons.IH[OF rest] have "items (drop (length (concat (map snd xs))) (drop ?w s)) = ys" .
  moreover have "length (concat (map snd (x # xs))) = length (concat (map snd xs)) + ?w"
    using x wl by simp
  ultimately show ?case by (simp add: add.commute)
qed


lemma byte_of: "n < 256 \<Longrightarrow> (of_char (char_of n) :: nat) = n"
  by simp

lemmas decode_defs = DecodeRune_def wellFormed_def conts_def need_def accept_def
  second_lo_def second_hi_def rune_value_def lead_bits_def

lemma Decode_Encode1:
  assumes "r < 128"
  shows "DecodeRune (EncodeRune r @ s) = (r, length (EncodeRune r))"
  using assms by (simp add: EncodeRune_def DecodeRune_def)

lemma Decode_Encode2:
  assumes "128 \<le> r" and "r < 2048"
  shows "DecodeRune (EncodeRune r @ s) = (r, length (EncodeRune r))"
proof -
  let ?b0 = "192 + r div 64" and ?b1 = "128 + r mod 64"
  from assms have b: "?b0 < 256" "?b1 < 256" "194 \<le> ?b0" "?b0 \<le> 223" by simp_all
  have v: "(?b0 - 192) * 64 + (?b1 - 128) = r" by simp
  from assms have e: "EncodeRune r = [char_of ?b0, char_of ?b1]" by (simp add: EncodeRune_def)
  show ?thesis unfolding e using b v by (simp add: decode_defs byte_of del: of_char_of)
qed

lemma div_4096: "(r::nat) div 4096 = r div 64 div 64"
  by (simp add: div_mult2_eq[symmetric])

lemma div_262144: "(r::nat) div 262144 = r div 64 div 64 div 64"
  by (simp add: div_mult2_eq[symmetric])

lemma Decode_Encode3:
  assumes "2048 \<le> r" and "r < 65536" and "r < 55296 \<or> 57344 \<le> r"
  shows "DecodeRune (EncodeRune r @ s) = (r, length (EncodeRune r))"
proof -
  define q where "q = r div 64"
  define l where "l = r mod 64"
  define d where "d = q div 64"
  define m where "m = q mod 64"
  have r: "r = q * 64 + l" "l < 64" by (simp_all add: q_def l_def)
  have q: "q = d * 64 + m" "m < 64" by (simp_all add: d_def m_def)
  have e0: "r div 4096 = d" "r div 64 mod 64 = m" "r mod 64 = l"
    by (simp_all add: div_4096 d_def q_def m_def l_def)
  from assms r q have b: "224 + d < 256" "128 + m < 256" "128 + l < 256" "224 \<le> 224 + d"
    "224 + d \<le> 239" by linarith+
  from assms r q have lo: "224 + d = 224 \<longrightarrow> 160 \<le> 128 + m" by linarith
  from assms r q have hi: "224 + d = 237 \<longrightarrow> 128 + m \<le> 159" by linarith
  from r q have v: "(((224 + d) - 224) * 64 + ((128 + m) - 128)) * 64 + ((128 + l) - 128) = r"
    by simp
  from assms have e: "EncodeRune r = [char_of (224 + d), char_of (128 + m), char_of (128 + l)]"
    by (auto simp: EncodeRune_def e0)
  show ?thesis unfolding e using b v lo hi r(2) q(2)
    by (simp add: decode_defs byte_of del: of_char_of)
qed

lemma Decode_Encode4:
  assumes "65536 \<le> r" and "r \<le> 1114111"
  shows "DecodeRune (EncodeRune r @ s) = (r, length (EncodeRune r))"
proof -
  define q where "q = r div 64"
  define l where "l = r mod 64"
  define d where "d = q div 64"
  define m where "m = q mod 64"
  define c where "c = d div 64"
  define n where "n = d mod 64"
  have r: "r = q * 64 + l" "l < 64" by (simp_all add: q_def l_def)
  have q: "q = d * 64 + m" "m < 64" by (simp_all add: d_def m_def)
  have d: "d = c * 64 + n" "n < 64" by (simp_all add: c_def n_def)
  have e0: "r div 262144 = c" "r div 4096 mod 64 = n" "r div 64 mod 64 = m" "r mod 64 = l"
    by (simp_all add: div_4096 div_262144 c_def n_def d_def q_def m_def l_def)
  from assms r q d have b: "240 + c < 256" "128 + n < 256" "128 + m < 256" "128 + l < 256"
    "240 \<le> 240 + c" "240 + c \<le> 244" by linarith+
  from assms r q d have lo: "240 + c = 240 \<longrightarrow> 144 \<le> 128 + n" by linarith
  from assms r q d have hi: "240 + c = 244 \<longrightarrow> 128 + n \<le> 143" by linarith
  from r q d have v: "((((240 + c) - 240) * 64 + ((128 + n) - 128)) * 64 + ((128 + m) - 128)) * 64 +
      ((128 + l) - 128) = r" by simp
  from assms have e: "EncodeRune r =
      [char_of (240 + c), char_of (128 + n), char_of (128 + m), char_of (128 + l)]"
    by (auto simp: EncodeRune_def e0)
  show ?thesis unfolding e using b v lo hi r(2) q(2) d(2)
    by (simp add: decode_defs byte_of del: of_char_of)
qed

lemma Decode_Encode:
  "validRune r \<Longrightarrow> DecodeRune (EncodeRune r @ s) = (r, length (EncodeRune r))"
  using Decode_Encode1[of r s] Decode_Encode2[of r s] Decode_Encode3[of r s] Decode_Encode4[of r s]
  unfolding validRune_def by (cases "r < 128"; cases "r < 2048"; cases "r < 65536") auto

lemma EncodeRune_not_Nil: "EncodeRune r \<noteq> []"
  by (simp add: EncodeRune_def)


lemma length2: "length bs = 2 \<Longrightarrow> \<exists>b1 b2. bs = [b1, b2]"
  by (cases bs; cases "tl bs") auto

lemma length3: "length bs = 3 \<Longrightarrow> \<exists>b1 b2 b3. bs = [b1, b2, b3]"
  by (cases bs; cases "tl bs"; cases "tl (tl bs)") auto

lemma length1: "length bs = Suc 0 \<Longrightarrow> \<exists>b1. bs = [b1]"
  by (cases bs) auto

lemma wellFormed_valid:
  assumes "wellFormed b0 t"
  shows "validRune (rune_value b0 (conts b0 t))"
proof -
  let ?bs = "conts b0 t"
  from assms have n: "need b0 \<noteq> 0" and l: "length ?bs = need b0" and a: "accept b0 ?bs"
    by (simp_all add: wellFormed_def)
  from n have "need b0 = 1 \<or> need b0 = 2 \<or> need b0 = 3"
    by (auto simp: need_def split: if_splits)
  then show ?thesis
  proof (elim disjE)
    assume k: "need b0 = 1"
    with l have "length ?bs = Suc 0" by simp
    from length1[OF this] obtain b1 where bs: "?bs = [b1]" by blast
    from k have b0: "194 \<le> b0" "b0 \<le> 223" by (auto simp: need_def split: if_splits)
    from a b0 have "128 \<le> b1" "b1 \<le> 191"
      by (auto simp: bs accept_def second_lo_def second_hi_def)
    moreover have "rune_value b0 ?bs = (b0 - 192) * 64 + (b1 - 128)"
      using b0 by (simp add: bs rune_value_def lead_bits_def)
    ultimately show ?thesis using b0 unfolding validRune_def by auto
  next
    assume k: "need b0 = 2"
    with l have "length ?bs = 2" by simp
    from length2[OF this] obtain b1 b2 where bs: "?bs = [b1, b2]" by blast
    from k have b0: "224 \<le> b0" "b0 \<le> 239" by (auto simp: need_def split: if_splits)
    from a b0 have c: "128 \<le> b1" "b1 \<le> 191" "128 \<le> b2" "b2 \<le> 191"
      "b0 = 237 \<longrightarrow> b1 \<le> 159"
      by (auto simp: bs accept_def second_lo_def second_hi_def split: if_splits)
    have v: "rune_value b0 ?bs = ((b0 - 224) * 64 + (b1 - 128)) * 64 + (b2 - 128)"
      using b0 by (simp add: bs rune_value_def lead_bits_def)
    from b0 c show ?thesis unfolding v validRune_def by (cases "b0 \<le> 237") auto
  next
    assume k: "need b0 = 3"
    with l have "length ?bs = 3" by simp
    from length3[OF this] obtain b1 b2 b3 where bs: "?bs = [b1, b2, b3]" by blast
    from k have b0: "240 \<le> b0" "b0 \<le> 244" by (auto simp: need_def split: if_splits)
    from a b0 have c: "128 \<le> b1" "b1 \<le> 191" "128 \<le> b2" "b2 \<le> 191" "128 \<le> b3" "b3 \<le> 191"
      "b0 = 240 \<longrightarrow> 144 \<le> b1" "b0 = 244 \<longrightarrow> b1 \<le> 143"
      by (auto simp: bs accept_def second_lo_def second_hi_def split: if_splits)
    have v: "rune_value b0 ?bs =
        (((b0 - 240) * 64 + (b1 - 128)) * 64 + (b2 - 128)) * 64 + (b3 - 128)"
      using b0 by (simp add: bs rune_value_def lead_bits_def)
    from b0 c show ?thesis unfolding v validRune_def by (cases "b0 = 240"; cases "b0 = 244") auto
  qed
qed

lemma DecodeRune_valid: "validRune (fst (DecodeRune s))"
proof (cases s)
  case Nil
  then show ?thesis by (simp add: DecodeRune_def RuneError_def validRune_def)
next
  case (Cons c t)
  show ?thesis
  proof (cases "(of_char c :: nat) < 128")
    case True
    with Cons show ?thesis by (simp add: DecodeRune_def validRune_def)
  next
    case False
    with Cons wellFormed_valid[of "of_char c" t] show ?thesis
      by (simp add: DecodeRune_def RuneError_def validRune_def)
  qed
qed

lemma items_valid: "x \<in> set (items s) \<Longrightarrow> validRune (fst x)"
proof (induction s rule: items.induct)
  case (1 s)
  show ?case
  proof (cases "s = []")
    case True
    with 1 show ?thesis by simp
  next
    case False
    from "1.prems" items_Cons[OF False]
    have "x = (fst (DecodeRune s), take (snd (DecodeRune s)) s) \<or>
          x \<in> set (items (drop (snd (DecodeRune s)) s))" by simp
    with "1.IH"[OF False] DecodeRune_valid[of s] show ?thesis by auto
  qed
qed

lemma items_encode:
  "list_all validRune rs \<Longrightarrow>
   items (concat (map EncodeRune rs)) = map (\<lambda>r. (r, EncodeRune r)) rs"
proof (induction rs)
  case Nil
  then show ?case by simp
next
  case (Cons r rs)
  then have v: "validRune r" and ih: "items (concat (map EncodeRune rs)) =
      map (\<lambda>r. (r, EncodeRune r)) rs" by simp_all
  from Decode_Encode[OF v]
  have "DecodeRune (EncodeRune r @ concat (map EncodeRune rs)) = (r, length (EncodeRune r))" .
  from items_step[OF this EncodeRune_not_Nil] ih show ?case by simp
qed



section \<open>Properties of the normalisation\<close>

lemma trimItems_sub: "\<exists>pre suf. xs = pre @ trimItems xs @ suf"
proof -
  let ?P = "\<lambda>x. IsSpace (fst x)"
  let ?u = "dropWhile ?P xs"
  have "xs = takeWhile ?P xs @ ?u" by simp
  moreover have "rev ?u = takeWhile ?P (rev ?u) @ dropWhile ?P (rev ?u)" by simp
  then have "?u = rev (dropWhile ?P (rev ?u)) @ rev (takeWhile ?P (rev ?u))"
    by (metis rev_append rev_rev_ident)
  ultimately have "xs = takeWhile ?P xs @ trimItems xs @ rev (takeWhile ?P (rev ?u))"
    by (simp add: trimItems_def)
  then show ?thesis by blast
qed

lemma trimItems_ends:
  "trimItems xs = [] \<or>
   (\<not> IsSpace (fst (hd (trimItems xs))) \<and> \<not> IsSpace (fst (last (trimItems xs))))"
proof (cases "trimItems xs = []")
  case True
  then show ?thesis by simp
next
  case False
  let ?P = "\<lambda>x. IsSpace (fst x)"
  let ?u = "dropWhile ?P xs"
  let ?v = "dropWhile ?P (rev ?u)"
  have tr: "trimItems xs = rev ?v" by (simp add: trimItems_def)
  with False have vne: "?v \<noteq> []" by simp
  then have "\<not> ?P (hd ?v)" by (rule hd_dropWhile)
  moreover from vne have "last (rev ?v) = hd ?v" by (simp add: last_rev)
  ultimately have l: "\<not> IsSpace (fst (last (trimItems xs)))" by (simp add: tr)
  have une: "?u \<noteq> []"
  proof
    assume a: "?u = []"
    have "?v = []" by (simp only: a rev.simps dropWhile.simps)
    with vne show False by blast
  qed
  then have hu: "\<not> ?P (hd ?u)" by (rule hd_dropWhile)
  have "rev ?v = take (length ?u - length (takeWhile ?P (rev ?u))) ?u"
    by (simp add: dropWhile_eq_drop drop_rev)
  with vne have "hd (rev ?v) = hd ?u" by (metis hd_take rev_is_Nil_conv take_eq_Nil gr0I)
  with hu tr have "\<not> IsSpace (fst (hd (trimItems xs)))" by simp
  with l show ?thesis by simp
qed

lemma trimItems_fix:
  assumes "xs = [] \<or> (\<not> IsSpace (fst (hd xs)) \<and> \<not> IsSpace (fst (last xs)))"
  shows "trimItems xs = xs"
proof (cases "xs = []")
  case True
  then show ?thesis by (simp add: trimItems_def)
next
  case False
  let ?P = "\<lambda>x. IsSpace (fst x)"
  from assms False have h: "\<not> ?P (hd xs)" and l: "\<not> ?P (last xs)" by simp_all
  from False h have a: "dropWhile ?P xs = xs" by (cases xs) auto
  from False l have "\<not> ?P (hd (rev xs))" by (simp add: hd_rev)
  with False have "dropWhile ?P (rev xs) = rev xs" by (cases "rev xs") auto
  with a show ?thesis by (simp add: trimItems_def)
qed

lemma items_TrimSpace: "items (TrimSpace s) = trimItems (items s)"
proof -
  from trimItems_sub obtain pre suf where
    p: "items s = pre @ trimItems (items s) @ suf" by blast
  from items_suffix[OF p]
  have "items (drop (length (concat (map snd pre))) s) = trimItems (items s) @ suf" .
  from items_prefix[OF this] show ?thesis by (simp add: TrimSpace_def)
qed

lemma trimItems_subset: "set (trimItems xs) \<subseteq> set xs"
proof -
  from trimItems_sub obtain pre suf where "xs = pre @ trimItems xs @ suf" by blast
  then have "set xs = set pre \<union> set (trimItems xs) \<union> set suf" by (metis set_append Un_assoc)
  then show ?thesis by blast
qed

lemma TrimSpace_fix: "trimItems (items t) = items t \<Longrightarrow> TrimSpace t = t"
  by (simp add: TrimSpace_def concat_items)

lemma ToLower_items:
  "items t = its \<Longrightarrow>
   ToLower lowerCase t = concat (map (\<lambda>x. EncodeRune (ToLower_rune lowerCase (fst x))) its)"
  by (simp add: ToLower_def)

lemma norm_name_idem:
  assumes "caseTable lowerCase"
  shows "ToLower lowerCase (TrimSpace (ToLower lowerCase (TrimSpace s))) =
         ToLower lowerCase (TrimSpace s)"
proof -
  let ?L = "ToLower_rune lowerCase"
  let ?tr = "trimItems (items s)"
  let ?rs = "map fst ?tr"
  let ?u = "ToLower lowerCase (TrimSpace s)"
  have u: "?u = concat (map EncodeRune (map ?L ?rs))"
    by (simp add: ToLower_def items_TrimSpace comp_def)
  have valid: "validRune r" if "r \<in> set ?rs" for r
    using that trimItems_subset[of "items s"] items_valid[of _ s] by auto
  from assms have L: "validRune (?L r)" "?L (?L r) = ?L r" "\<not> IsSpace r \<Longrightarrow> \<not> IsSpace (?L r)"
    if "validRune r" for r
    using that by (simp_all add: caseTable_def)
  have "list_all validRune (map ?L ?rs)"
    using valid L(1) by (simp add: list_all_iff)
  from items_encode[OF this]
  have iu: "items ?u = map (\<lambda>r. (r, EncodeRune r)) (map ?L ?rs)" by (simp only: u)
  have ends: "items ?u = [] \<or>
      (\<not> IsSpace (fst (hd (items ?u))) \<and> \<not> IsSpace (fst (last (items ?u))))"
  proof (cases "?tr = []")
    case True
    then show ?thesis by (simp add: iu)
  next
    case False
    with trimItems_ends[of "items s"]
    have e: "\<not> IsSpace (fst (hd ?tr))" "\<not> IsSpace (fst (last ?tr))" by simp_all
    from False have "hd ?tr \<in> set ?tr" "last ?tr \<in> set ?tr" by simp_all
    then have "validRune (fst (hd ?tr))" "validRune (fst (last ?tr))"
      using valid by simp_all
    with e L(3) have "\<not> IsSpace (?L (fst (hd ?tr)))" "\<not> IsSpace (?L (fst (last ?tr)))"
      by blast+
    with False show ?thesis by (simp add: iu hd_map last_map)
  qed
  have "trimItems (items ?u) = items ?u" by (rule trimItems_fix[OF ends])
  then have tu: "TrimSpace ?u = ?u" by (rule TrimSpace_fix)
  have "ToLower lowerCase ?u =
      concat (map (\<lambda>x. EncodeRune (?L (fst x))) (map (\<lambda>r. (r, EncodeRune r)) (map ?L ?rs)))"
    by (rule ToLower_items[OF iu])
  also have "\<dots> = concat (map EncodeRune (map ?L (map ?L ?rs)))"
    by (simp add: comp_def)
  also have "map ?L (map ?L ?rs) = map ?L ?rs"
    using valid L(2) by (simp add: map_idI)
  finally have "ToLower lowerCase ?u = ?u" by (simp only: u)
  with tu show ?thesis by (simp only:)
qed


lemma caseTable_latin1: "caseTable latin1_lower"
  unfolding caseTable_def ToLower_rune_def latin1_lower_def validRune_def IsSpace_def
  by auto


text \<open>Equations that evaluate the normalisation of a given name.\<close>

lemma items_Cons_eval:
  "items (c # t) =
     (fst (DecodeRune (c # t)), take (snd (DecodeRune (c # t))) (c # t)) #
     items (drop (snd (DecodeRune (c # t))) (c # t))"
  by (rule items_Cons) simp

lemma DecodeRune_ascii: "(of_char c :: nat) < 128 \<Longrightarrow> DecodeRune (c # t) = (of_char c, 1)"
  by (simp add: DecodeRune_def)

lemmas norm_eval = TrimSpace_def ToLower_def trimItems_def IsSpace_def ToLower_rune_def
  items_Cons_eval DecodeRune_ascii EncodeRune_def char_of_def bit_iff_odd latin1_lower_def

lemmas decode_eval = DecodeRune_def wellFormed_def conts_def need_def accept_def
  second_lo_def second_hi_def rune_value_def lead_bits_def RuneError_def

text \<open>
  The two functions on names that are not ASCII: a no-break space \<open>U+00A0\<close> and an em
  space \<open>U+2003\<close> are trimmed; \<open>U+00C9\<close> is mapped to \<open>U+00E9\<close>; the Kelvin sign
  \<open>U+212A\<close> is mapped as the table says; a byte that is no UTF-8 comes out as \<open>U+FFFD\<close>.
\<close>

lemma TrimSpace_unicode:
  "TrimSpace ([CHR 0xC2, CHR 0xA0] @ ''a b'' @ [CHR 0xE2, CHR 0x80, CHR 0x83, CHR 0x20]) = ''a b''"
  by (simp add: norm_eval decode_eval)

lemma ToLower_E_acute: "ToLower latin1_lower [CHR 0xC3, CHR 0x89] = [CHR 0xC3, CHR 0xA9]"
  by (simp add: norm_eval decode_eval)

lemma ToLower_Kelvin:
  "ToLower lowerCase [CHR 0xE2, CHR 0x84, CHR 0xAA] = EncodeRune (lowerCase 8490)"
  by (simp add: TrimSpace_def ToLower_def ToLower_rune_def items_Cons_eval decode_eval)

lemma ToLower_invalid:
  "ToLower latin1_lower [CHR ''A'', CHR 0xFF] = [CHR ''a'', CHR 0xEF, CHR 0xBF, CHR 0xBD]"
  by (simp add: norm_eval decode_eval)


section \<open>Properties of the loader's loops\<close>

lemma buildAllowedSet_eq:
  "buildAllowedSet lowerCase tools aset = aset \<union> norm_name lowerCase ` set tools"
  by (induction tools arbitrary: aset) (auto simp: Let_def)

lemma compileArgs_Inl:
  "compileArgs C tool kvs acc = Inl err \<Longrightarrow>
   \<exists>k p m. (k, p) \<in> set kvs \<and> C p = Inl m \<and> err = InvalidRegex tool k m"
proof (induction kvs arbitrary: acc)
  case Nil
  then show ?case by simp
next
  case (Cons kv kvs)
  obtain k p where kv: "kv = (k, p)" by (cases kv)
  show ?case
  proof (cases "C p")
    case (Inl m)
    with Cons.prems kv show ?thesis by auto
  next
    case (Inr rx)
    with Cons.prems kv have "compileArgs C tool kvs (acc(k \<mapsto> rx)) = Inl err" by simp
    from Cons.IH[OF this] show ?thesis by auto
  qed
qed

lemma compileArgs_isl:
  "isl (compileArgs C tool kvs acc) \<longleftrightarrow> (\<exists>kv \<in> set kvs. isl (C (snd kv)))"
proof (induction kvs arbitrary: acc)
  case Nil
  then show ?case by simp
next
  case (Cons kv kvs)
  obtain k p where kv: "kv = (k, p)" by (cases kv)
  show ?case
  proof (cases "C p")
    case (Inl m)
    then show ?thesis by (simp add: kv)
  next
    case (Inr rx)
    have "isl (compileArgs C tool (kv # kvs) acc) = isl (compileArgs C tool kvs (acc(k \<mapsto> rx)))"
      by (simp add: kv Inr)
    also have "\<dots> = (\<exists>kv \<in> set kvs. isl (C (snd kv)))" by (rule Cons.IH)
    also have "\<dots> = (\<exists>kv' \<in> set (kv # kvs). isl (C (snd kv')))" by (simp add: kv Inr)
    finally show ?thesis .
  qed
qed

lemma compileArgs_dom:
  "compileArgs C tool kvs acc = Inr cargs \<Longrightarrow> dom cargs = dom acc \<union> fst ` set kvs"
proof (induction kvs arbitrary: acc)
  case Nil
  then show ?case by simp
next
  case (Cons kv kvs)
  obtain k p where kv: "kv = (k, p)" by (cases kv)
  from Cons.prems kv obtain rx where rx: "C p = Inr rx"
    and rest: "compileArgs C tool kvs (acc(k \<mapsto> rx)) = Inr cargs"
    by (auto split: sum.splits)
  from Cons.IH[OF rest] show ?case by (auto simp: kv)
qed

lemma compileArgs_Inr:
  "compileArgs C tool kvs acc = Inr cargs \<Longrightarrow> distinct (map fst kvs) \<Longrightarrow>
   cargs = acc ++ compiled_of C (map_of kvs)"
proof (induction kvs arbitrary: acc)
  case Nil
  then show ?case by (simp add: compiled_of_def)
next
  case (Cons kv kvs)
  obtain k p where kv: "kv = (k, p)" by (cases kv)
  from Cons.prems kv obtain rx where rx: "C p = Inr rx"
    and rest: "compileArgs C tool kvs (acc(k \<mapsto> rx)) = Inr cargs"
    by (auto split: sum.splits)
  from Cons.prems kv have d: "distinct (map fst kvs)" and nk: "k \<notin> fst ` set kvs" by auto
  from Cons.IH[OF rest d]
  have c: "cargs = acc(k \<mapsto> rx) ++ compiled_of C (map_of kvs)" .
  from nk have none: "map_of kvs k = None" by (simp add: map_of_eq_None_iff)
  have "acc(k \<mapsto> rx) ++ compiled_of C (map_of kvs) = acc ++ compiled_of C (map_of (kv # kvs))"
    by (rule ext) (auto simp: kv map_add_def compiled_of_def rx none split: option.splits sum.splits)
  with c show ?case by (simp only:)
qed

lemma compileArgs_entries:
  assumes "compileArgs C tool kvs Map.empty = Inr cargs" and "entries m kvs"
  shows "cargs = compiled_of C m" and "dom cargs = dom m"
proof -
  from assms have d: "distinct (map fst kvs)" and m: "map_of kvs = m"
    by (auto simp: entries_def)
  from compileArgs_Inr[OF assms(1) d] m show "cargs = compiled_of C m" by simp
  from compileArgs_dom[OF assms(1)] have "dom cargs = fst ` set kvs" by simp
  also have "\<dots> = dom m" using m by (simp add: dom_map_of_conv_image_fst[symmetric])
  finally show "dom cargs = dom m" .
qed

lemma entries_mem: "entries m kvs \<Longrightarrow> ((k, p) \<in> set kvs) = (m k = Some p)"
  by (auto simp: entries_def)

lemma compileRules_Cons_None:
  assumes "compileRules lowerCase C order i (rule # rest) aset rmap = (None, aset', rmap', rules')"
  shows "\<exists>cargs rs. compileArgs C (Tool rule) (order i) Map.empty = Inr cargs \<and>
           compileRules lowerCase C order (Suc i) rest (insert (norm_name lowerCase (Tool rule)) aset)
             (rmap(norm_name lowerCase (Tool rule) \<mapsto> rule\<lparr>compiledArgs := cargs\<rparr>)) =
             (None, aset', rmap', rs) \<and>
           rules' = rule\<lparr>compiledArgs := cargs\<rparr> # rs"
proof (cases "compileArgs C (Tool rule) (order i) Map.empty")
  case (Inl e)
  with assms show ?thesis by (simp add: Let_def)
next
  case (Inr cargs)
  obtain err a m rs where rec: "compileRules lowerCase C order (Suc i) rest
      (insert (norm_name lowerCase (Tool rule)) aset)
      (rmap(norm_name lowerCase (Tool rule) \<mapsto> rule\<lparr>compiledArgs := cargs\<rparr>)) = (err, a, m, rs)"
    by (metis prod_cases4)
  with assms Inr have "err = None" "a = aset'" "m = rmap'" "rules' = rule\<lparr>compiledArgs := cargs\<rparr> # rs"
    by (simp_all add: Let_def)
  with rec Inr show ?thesis by blast
qed

lemma compileRules_sets:
  "compileRules lowerCase C order i rules aset rmap = (None, aset', rmap', rules') \<Longrightarrow>
   aset' = aset \<union> norm_name lowerCase ` Tool ` set rules \<and>
   dom rmap' = dom rmap \<union> norm_name lowerCase ` Tool ` set rules"
proof (induction rules arbitrary: i aset rmap rules')
  case Nil
  then show ?case by simp
next
  case (Cons rule rest)
  from compileRules_Cons_None[OF Cons.prems] obtain cargs rs where
    rec: "compileRules lowerCase C order (Suc i) rest (insert (norm_name lowerCase (Tool rule)) aset)
             (rmap(norm_name lowerCase (Tool rule) \<mapsto> rule\<lparr>compiledArgs := cargs\<rparr>)) =
             (None, aset', rmap', rs)" by blast
  from Cons.IH[OF rec] show ?case by auto
qed

lemma compileRules_compiled:
  "compileRules lowerCase C order i rules aset rmap = (None, aset', rmap', rules') \<Longrightarrow>
   rangeOrders order i rules \<Longrightarrow>
   (\<And>n r. rmap n = Some r \<Longrightarrow> rule_compiled C r) \<Longrightarrow>
   rmap' n = Some r \<Longrightarrow> rule_compiled C r"
proof (induction rules arbitrary: i aset rmap rules')
  case Nil
  then show ?case by simp
next
  case (Cons rule rest)
  let ?n = "norm_name lowerCase (Tool rule)"
  from compileRules_Cons_None[OF Cons.prems(1)] obtain cargs rs where
    ca: "compileArgs C (Tool rule) (order i) Map.empty = Inr cargs" and
    rec: "compileRules lowerCase C order (Suc i) rest (insert ?n aset)
             (rmap(?n \<mapsto> rule\<lparr>compiledArgs := cargs\<rparr>)) = (None, aset', rmap', rs)" by blast
  let ?rule' = "rule\<lparr>compiledArgs := cargs\<rparr>"
  from Cons.prems(2) have en: "entries (AllowArgs rule) (order i)"
    and ro: "rangeOrders order (Suc i) rest" by auto
  from compileArgs_entries[OF ca en] have rc: "rule_compiled C ?rule'"
    by (simp add: rule_compiled_def)
  have inv: "\<And>n r. (rmap(?n \<mapsto> ?rule')) n = Some r \<Longrightarrow> rule_compiled C r"
    using rc Cons.prems(3) by (auto split: if_splits)
  from Cons.IH[OF rec ro inv Cons.prems(4)] show ?case .
qed

lemma compileRules_origin:
  "compileRules lowerCase C order i rules aset rmap = (None, aset', rmap', rules') \<Longrightarrow>
   rmap' n = Some r \<Longrightarrow>
   rmap n = Some r \<or>
   (\<exists>rule \<in> set rules. norm_name lowerCase (Tool rule) = n \<and> Tool r = Tool rule \<and>
      AllowArgs r = AllowArgs rule)"
proof (induction rules arbitrary: i aset rmap rules')
  case Nil
  then show ?case by simp
next
  case (Cons rule rest)
  let ?n = "norm_name lowerCase (Tool rule)"
  from compileRules_Cons_None[OF Cons.prems(1)] obtain cargs rs where
    rec: "compileRules lowerCase C order (Suc i) rest (insert ?n aset)
             (rmap(?n \<mapsto> rule\<lparr>compiledArgs := cargs\<rparr>)) = (None, aset', rmap', rs)" by blast
  let ?rule' = "rule\<lparr>compiledArgs := cargs\<rparr>"
  from Cons.IH[OF rec Cons.prems(2)]
  have "(rmap(?n \<mapsto> ?rule')) n = Some r \<or>
    (\<exists>rule \<in> set rest. norm_name lowerCase (Tool rule) = n \<and> Tool r = Tool rule \<and>
      AllowArgs r = AllowArgs rule)" .
  then show ?case by (auto split: if_splits)
qed

lemma compileRules_error:
  "compileRules lowerCase C order i rules aset rmap = (Some err, st) \<Longrightarrow>
   rangeOrders order i rules \<Longrightarrow>
   \<exists>rule \<in> set rules. \<exists>k p m. AllowArgs rule k = Some p \<and> C p = Inl m \<and>
      err = InvalidRegex (Tool rule) k m"
proof (induction rules arbitrary: i aset rmap st)
  case Nil
  then show ?case by simp
next
  case (Cons rule rest)
  let ?n = "norm_name lowerCase (Tool rule)"
  from Cons.prems(2) have en: "entries (AllowArgs rule) (order i)"
    and ro: "rangeOrders order (Suc i) rest" by auto
  show ?case
  proof (cases "compileArgs C (Tool rule) (order i) Map.empty")
    case (Inl e)
    with Cons.prems(1) have "e = err" by (simp add: Let_def)
    with compileArgs_Inl[OF Inl] obtain k p m where
      "(k, p) \<in> set (order i)" "C p = Inl m" "err = InvalidRegex (Tool rule) k m" by auto
    with entries_mem[OF en] show ?thesis by auto
  next
    case (Inr cargs)
    let ?rule' = "rule\<lparr>compiledArgs := cargs\<rparr>"
    obtain err' a m rs where rec: "compileRules lowerCase C order (Suc i) rest
      (insert ?n aset) (rmap(?n \<mapsto> ?rule')) = (err', a, m, rs)"
      by (metis prod_cases4)
    with Cons.prems(1) Inr have "err' = Some err" by (auto simp: Let_def)
    with rec have "compileRules lowerCase C order (Suc i) rest
      (insert ?n aset) (rmap(?n \<mapsto> ?rule')) = (Some err, a, m, rs)" by simp
    from Cons.IH[OF this ro] show ?thesis by auto
  qed
qed

lemma compileRules_ok:
  "rangeOrders order i rules \<Longrightarrow>
   (\<And>rule k p. rule \<in> set rules \<Longrightarrow> AllowArgs rule k = Some p \<Longrightarrow> \<not> isl (C p)) \<Longrightarrow>
   fst (compileRules lowerCase C order i rules aset rmap) = None"
proof (induction rules arbitrary: i aset rmap)
  case Nil
  then show ?case by simp
next
  case (Cons rule rest)
  let ?n = "norm_name lowerCase (Tool rule)"
  from Cons.prems(1) have en: "entries (AllowArgs rule) (order i)"
    and ro: "rangeOrders order (Suc i) rest" by auto
  have "\<not> isl (compileArgs C (Tool rule) (order i) Map.empty)"
  proof
    assume "isl (compileArgs C (Tool rule) (order i) Map.empty)"
    then obtain k p where "(k, p) \<in> set (order i)" "isl (C p)"
      unfolding compileArgs_isl by auto
    with entries_mem[OF en] Cons.prems(2)[of rule k p] show False by simp
  qed
  then obtain cargs where ca: "compileArgs C (Tool rule) (order i) Map.empty = Inr cargs"
    by (cases "compileArgs C (Tool rule) (order i) Map.empty") auto
  let ?rule' = "rule\<lparr>compiledArgs := cargs\<rparr>"
  have "\<And>r k p. r \<in> set rest \<Longrightarrow> AllowArgs r k = Some p \<Longrightarrow> \<not> isl (C p)"
    using Cons.prems(2) by (meson list.set_intros(2))
  then have "fst (compileRules lowerCase C order (Suc i) rest (insert ?n aset) (rmap(?n \<mapsto> ?rule'))) = None"
    by (rule Cons.IH[OF ro])
  then show ?case
    by (cases "compileRules lowerCase C order (Suc i) rest (insert ?n aset) (rmap(?n \<mapsto> ?rule'))")
       (simp add: ca Let_def)
qed

section \<open>Properties of a successful load\<close>

lemma Load_None:
  assumes "Load lowerCase U C order e data = (None, e')"
  shows "\<exists>pol aset' rmap' rules'. U data = Inr pol \<and> APIVersion pol \<noteq> [] \<and>
           Kind pol = ''AgentPolicy'' \<and>
           compileRules lowerCase C order 0 (ToolRules (Spec pol))
             (buildAllowedSet lowerCase (AllowedTools (Spec pol)) {}) Map.empty =
             (None, aset', rmap', rules') \<and>
           allowedSet e' = Some aset' \<and> toolRules e' = rmap'"
proof (cases "U data")
  case (Inl m)
  with assms show ?thesis by (simp add: Load_def)
next
  case (Inr pol)
  obtain err a m rs where cr: "compileRules lowerCase C order 0 (ToolRules (Spec pol))
             (buildAllowedSet lowerCase (AllowedTools (Spec pol)) {}) Map.empty = (err, a, m, rs)"
    by (metis prod_cases4)
  from assms Inr cr have ok: "APIVersion pol \<noteq> []" "Kind pol = ''AgentPolicy''"
    by (auto simp: Load_def split: if_splits)
  with assms Inr cr have "err = None" "allowedSet e' = Some a" "toolRules e' = m"
    by (auto simp: Load_def Let_def split: option.splits)
  with Inr cr ok show ?thesis by auto
qed

lemma Load_sets:
  assumes "Load lowerCase U C order e data = (None, e')" and "U data = Inr pol"
  shows "allowedSet e' =
           Some (norm_name lowerCase ` set (AllowedTools (Spec pol)) \<union>
                 norm_name lowerCase ` Tool ` set (ToolRules (Spec pol)))"
    and "dom (toolRules e') = norm_name lowerCase ` Tool ` set (ToolRules (Spec pol))"
proof -
  from Load_None[OF assms(1)] assms(2) obtain aset' rmap' rules' where
    cr: "compileRules lowerCase C order 0 (ToolRules (Spec pol))
             (buildAllowedSet lowerCase (AllowedTools (Spec pol)) {}) Map.empty =
             (None, aset', rmap', rules')"
    and e': "allowedSet e' = Some aset'" "toolRules e' = rmap'" by auto
  from compileRules_sets[OF cr] e'
  show "allowedSet e' =
           Some (norm_name lowerCase ` set (AllowedTools (Spec pol)) \<union>
                 norm_name lowerCase ` Tool ` set (ToolRules (Spec pol)))"
    and "dom (toolRules e') = norm_name lowerCase ` Tool ` set (ToolRules (Spec pol))"
    by (simp_all add: buildAllowedSet_eq)
qed

lemma Load_rules_allowed:
  assumes "Load lowerCase U C order e data = (None, e')"
  shows "\<exists>aset. allowedSet e' = Some aset \<and> dom (toolRules e') \<subseteq> aset"
proof -
  from Load_None[OF assms] obtain pol where "U data = Inr pol" by auto
  from Load_sets[OF assms this] show ?thesis by auto
qed

lemma Load_rule_compiled:
  assumes "Load lowerCase U C order e data = (None, e')" and "loadOrders U order data"
    and "toolRules e' n = Some r"
  shows "rule_compiled C r"
proof -
  from Load_None[OF assms(1)] obtain pol aset' rmap' rules' where
    u: "U data = Inr pol" and
    cr: "compileRules lowerCase C order 0 (ToolRules (Spec pol))
             (buildAllowedSet lowerCase (AllowedTools (Spec pol)) {}) Map.empty =
             (None, aset', rmap', rules')"
    and e': "toolRules e' = rmap'" by auto
  from assms(2) u have ro: "rangeOrders order 0 (ToolRules (Spec pol))"
    by (simp add: loadOrders_def)
  from assms(3) e' have "rmap' n = Some r" by simp
  from compileRules_compiled[OF cr ro _ this] show ?thesis by simp
qed

lemma Load_rule_origin:
  assumes "Load lowerCase U C order e data = (None, e')" and "U data = Inr pol"
    and "toolRules e' n = Some r"
  shows "\<exists>rule \<in> set (ToolRules (Spec pol)). norm_name lowerCase (Tool rule) = n \<and>
           Tool r = Tool rule \<and> AllowArgs r = AllowArgs rule"
proof -
  from Load_None[OF assms(1)] assms(2) obtain aset' rmap' rules' where
    cr: "compileRules lowerCase C order 0 (ToolRules (Spec pol))
             (buildAllowedSet lowerCase (AllowedTools (Spec pol)) {}) Map.empty =
             (None, aset', rmap', rules')"
    and e': "toolRules e' = rmap'" by auto
  from assms(3) e' have "rmap' n = Some r" by simp
  from compileRules_origin[OF cr this] show ?thesis by simp
qed

lemma rule_compiled_Some:
  assumes "rule_compiled C r" and "AllowArgs r A = Some P"
  shows "\<exists>rx. C P = Inr rx \<and> compiledArgs r A = Some rx"
proof -
  from assms(2) have "A \<in> dom (AllowArgs r)" by auto
  moreover from assms(1) have "dom (compiledArgs r) = dom (AllowArgs r)"
    unfolding rule_compiled_def by blast
  ultimately have "A \<in> dom (compiledArgs r)" by (simp only:)
  then obtain rx where rx: "compiledArgs r A = Some rx" by auto
  with assms have "compiled_of C (AllowArgs r) A = Some rx" by (simp add: rule_compiled_def)
  with assms(2) have "C P = Inr rx" by (simp add: compiled_of_def split: sum.splits)
  with rx show ?thesis by simp
qed

lemma rule_compiled_pattern:
  assumes "rule_compiled C r" and "compiledArgs r A = Some rx"
  shows "\<exists>P. AllowArgs r A = Some P \<and> C P = Inr rx"
proof -
  from assms have "A \<in> dom (AllowArgs r)" by (auto simp: rule_compiled_def)
  then obtain P where P: "AllowArgs r A = Some P" by auto
  from rule_compiled_Some[OF assms(1) P] assms(2) P show ?thesis by auto
qed

section \<open>Properties of the argument check\<close>

lemma checkArgs_Cons:
  "checkArgs F rule args ((k, rx) # ks) =
     (if passes F args k rx then checkArgs F rule args ks
      else \<lparr>Allowed = False, FailedArg = k, FailedRule = lookupStr (AllowArgs rule) k\<rparr>)"
  by (simp add: passes_def Let_def split: option.splits)

lemma checkArgs_Allowed:
  "Allowed (checkArgs F rule args ks) = (\<forall>kv \<in> set ks. passes F args (fst kv) (snd kv))"
proof (induction ks)
  case Nil
  then show ?case by simp
next
  case (Cons kv ks)
  obtain k rx where kv: "kv = (k, rx)" by (cases kv)
  show ?case unfolding kv checkArgs_Cons using Cons.IH by simp
qed

lemma checkArgs_allow:
  "Allowed (checkArgs F rule args ks) \<Longrightarrow> checkArgs F rule args ks = allow"
proof (induction ks)
  case Nil
  then show ?case by (simp add: allow_def)
next
  case (Cons kv ks)
  obtain k rx where kv: "kv = (k, rx)" by (cases kv)
  from Cons.prems show ?case unfolding kv checkArgs_Cons
    using Cons.IH by (simp split: if_splits)
qed

lemma checkArgs_denied:
  "\<not> Allowed (checkArgs F rule args ks) \<Longrightarrow>
   \<exists>rx. (FailedArg (checkArgs F rule args ks), rx) \<in> set ks \<and>
        \<not> passes F args (FailedArg (checkArgs F rule args ks)) rx \<and>
        FailedRule (checkArgs F rule args ks) =
          lookupStr (AllowArgs rule) (FailedArg (checkArgs F rule args ks))"
proof (induction ks)
  case Nil
  then show ?case by simp
next
  case (Cons kv ks)
  obtain k rx where kv: "kv = (k, rx)" by (cases kv)
  show ?case
  proof (cases "passes F args k rx")
    case True
    then have eq: "checkArgs F rule args (kv # ks) = checkArgs F rule args ks"
      unfolding kv checkArgs_Cons by simp
    from Cons.prems eq have "\<not> Allowed (checkArgs F rule args ks)" by simp
    from Cons.IH[OF this] show ?thesis unfolding eq by auto
  next
    case False
    then have "checkArgs F rule args (kv # ks) =
      \<lparr>Allowed = False, FailedArg = k, FailedRule = lookupStr (AllowArgs rule) k\<rparr>"
      unfolding kv checkArgs_Cons by simp
    with False show ?thesis by (auto simp: kv)
  qed
qed

lemma passes_cong: "args1 k = args2 k \<Longrightarrow> passes F args1 k rx = passes F args2 k rx"
  by (simp add: passes_def)

lemma checkArgs_cong:
  "(\<And>k. k \<in> fst ` set ks \<Longrightarrow> args1 k = args2 k) \<Longrightarrow>
   checkArgs F rule args1 ks = checkArgs F rule args2 ks"
proof (induction ks)
  case Nil
  then show ?case by simp
next
  case (Cons kv ks)
  obtain k rx where kv: "kv = (k, rx)" by (cases kv)
  from Cons.prems have k: "args1 k = args2 k" by (simp add: kv)
  from Cons.prems have "checkArgs F rule args1 ks = checkArgs F rule args2 ks"
    by (intro Cons.IH) auto
  moreover from k have "passes F args1 k rx = passes F args2 k rx" by (rule passes_cong)
  ultimately show ?case unfolding kv checkArgs_Cons by simp
qed

section \<open>The concrete runs\<close>

lemma norm_Run_Query: "norm_name lowerCase ''Run_Query'' = ''run_query''" by (simp add: norm_eval)
lemma norm_run_query: "norm_name lowerCase ''run_query'' = ''run_query''" by (simp add: norm_eval)
lemma norm_safe_tool: "norm_name lowerCase ''safe_tool'' = ''safe_tool''" by (simp add: norm_eval)
lemma norm_old_tool: "norm_name lowerCase ''old_tool'' = ''old_tool''" by (simp add: norm_eval)
lemma norm_bad_tool: "norm_name lowerCase ''bad_tool'' = ''bad_tool''" by (simp add: norm_eval)
lemma norm_ping: "norm_name lowerCase ''ping'' = ''ping''" by (simp add: norm_eval)
lemma norm_PING: "norm_name lowerCase '' PING '' = ''ping''" by (simp add: norm_eval)
lemma norm_Drop_Table: "norm_name lowerCase ''Drop_Table'' = ''drop_table''" by (simp add: norm_eval)
lemma norm_Fetch_URL: "norm_name lowerCase ''Fetch_URL'' = ''fetch_url''" by (simp add: norm_eval)
lemma norm_fetch_url: "norm_name lowerCase '' fetch_url '' = ''fetch_url''" by (simp add: norm_eval)

lemmas norm_evals = norm_Run_Query norm_run_query norm_safe_tool norm_old_tool norm_bad_tool
  norm_ping norm_PING norm_Drop_Table

lemma prefixCompile_prod: "prefixCompile ''^prod'' = Inr (hasPrefix ''prod'')"
  by (simp add: prefixCompile_def plainChar_def)

lemma prefixCompile_SELECT: "prefixCompile ''^SELECT'' = Inr (hasPrefix ''SELECT'')"
  by (simp add: prefixCompile_def plainChar_def)

lemma prefixCompile_bad: "prefixCompile ''[invalid(regex'' = Inl ''error parsing regexp''"
  by (simp add: prefixCompile_def plainChar_def)

lemmas run_defs = Load_def parsed_def NewEngine_def query_policy_def old_policy_def
  bad_policy_def bad_rule_def policy_of_def query_rule_def rule_of_def query_order_def
  bad_order_def prefixCompile_prod prefixCompile_SELECT prefixCompile_bad Let_def norm_evals

lemma query_Load: "Load latin1_lower (parsed query_policy) prefixCompile query_order NewEngine [] = (None, query_engine)"
  by (simp add: query_engine_def prod_eq_iff) (simp add: run_defs)

lemma query_allowedSet: "allowedSet query_engine = Some {''ping'', ''run_query'', ''safe_tool''}"
  by (simp add: query_engine_def run_defs)

lemma query_orders: "loadOrders (parsed query_policy) query_order data"
  by (simp add: loadOrders_def run_defs entries_def fun_upd_twist)

lemma query_toolRules_run_query:
  "toolRules query_engine ''run_query'' =
     Some (query_rule\<lparr>compiledArgs :=
       [''query'' \<mapsto> hasPrefix ''SELECT'', ''database'' \<mapsto> hasPrefix ''prod'']\<rparr>)"
  by (simp add: query_engine_def run_defs)

lemma query_toolRules_ping:
  "toolRules query_engine ''ping'' = Some (rule_of ''ping'' [])"
  by (simp add: query_engine_def run_defs)

lemma query_toolRules_safe_tool: "toolRules query_engine ''safe_tool'' = None"
  by (simp add: query_engine_def run_defs)

lemma old_Load: "Load latin1_lower (parsed old_policy) prefixCompile (\<lambda>i. []) NewEngine [] = (None, old_engine)"
  by (simp add: old_engine_def prod_eq_iff) (simp add: run_defs)

lemma old_allowedSet: "allowedSet old_engine = Some {''old_tool''}"
  by (simp add: old_engine_def run_defs)

lemma old_toolRules: "toolRules old_engine = Map.empty"
  by (simp add: old_engine_def run_defs)

lemma bad_orders: "loadOrders (parsed bad_policy) bad_order data"
  by (simp add: loadOrders_def run_defs entries_def)

section \<open>From the compiled rule back to the declared patterns\<close>

lemma visit_pattern:
  assumes "rule_compiled C rule" and "entries (compiledArgs rule) visit"
    and "(k, rx) \<in> set visit"
  shows "\<exists>P. AllowArgs rule k = Some P \<and> C P = Inr rx \<and>
           passes F args k rx = argPasses C F args k P \<and>
           lookupStr (AllowArgs rule) k = P"
proof -
  from entries_mem[OF assms(2)] assms(3) have "compiledArgs rule k = Some rx" by simp
  from rule_compiled_pattern[OF assms(1) this] obtain P where
    P: "AllowArgs rule k = Some P" "C P = Inr rx" by blast
  then have "passes F args k rx = argPasses C F args k P"
    by (simp add: passes_def argPasses_def split: option.splits)
  with P show ?thesis by (simp add: lookupStr_def)
qed

lemma visit_all_pass:
  assumes "rule_compiled C rule" and "entries (compiledArgs rule) visit"
  shows "(\<forall>kv \<in> set visit. passes F args (fst kv) (snd kv)) =
         (\<forall>A P. AllowArgs rule A = Some P \<longrightarrow> argPasses C F args A P)"
proof
  assume all: "\<forall>kv \<in> set visit. passes F args (fst kv) (snd kv)"
  show "\<forall>A P. AllowArgs rule A = Some P \<longrightarrow> argPasses C F args A P"
  proof (intro allI impI)
    fix A P assume AP: "AllowArgs rule A = Some P"
    from rule_compiled_Some[OF assms(1) AP] obtain rx where
      rx: "C P = Inr rx" "compiledArgs rule A = Some rx" by blast
    with entries_mem[OF assms(2)] have "(A, rx) \<in> set visit" by simp
    with all have "passes F args A rx" by fastforce
    with rx show "argPasses C F args A P"
      by (simp add: passes_def argPasses_def split: option.splits)
  qed
next
  assume all: "\<forall>A P. AllowArgs rule A = Some P \<longrightarrow> argPasses C F args A P"
  show "\<forall>kv \<in> set visit. passes F args (fst kv) (snd kv)"
  proof
    fix kv assume "kv \<in> set visit"
    then have "(fst kv, snd kv) \<in> set visit" by simp
    from visit_pattern[OF assms this, of F args] all
    show "passes F args (fst kv) (snd kv)" by blast
  qed
qed

lemma IsAllowed_constrained:
  assumes "Load lowerCase U C order e data = (None, e')" and "loadOrders U order data"
    and "toolRules e' (norm_name lowerCase toolName) = Some rule"
    and "AllowArgs rule \<noteq> Map.empty"
  shows "IsAllowed lowerCase F visit e' toolName args = checkArgs F rule args visit"
proof -
  from Load_rules_allowed[OF assms(1)] obtain aset where
    a: "allowedSet e' = Some aset" "dom (toolRules e') \<subseteq> aset" by blast
  with assms(3) have m: "norm_name lowerCase toolName \<in> aset" by blast
  from Load_rule_compiled[OF assms(1,2,3)]
  have "dom (compiledArgs rule) = dom (AllowArgs rule)"
    unfolding rule_compiled_def by blast
  with assms(4) have "compiledArgs rule \<noteq> Map.empty" by (metis dom_eq_empty_conv)
  with a m assms(3) show ?thesis by (simp add: IsAllowed_def)
qed


lemma query_rule_AllowArgs:
  "AllowArgs query_rule = [''query'' \<mapsto> ''^SELECT'', ''database'' \<mapsto> ''^prod'']"
  by (simp add: query_rule_def rule_of_def)


lemma entries_set: "entries m kvs \<Longrightarrow> set kvs = {(k, v). m k = Some v}"
  by (auto simp: entries_def)

section \<open>The errors of Load\<close>

lemma compileRules_None_patterns:
  "compileRules lowerCase C order i rules aset rmap = (None, aset', rmap', rules') \<Longrightarrow>
   rangeOrders order i rules \<Longrightarrow> rule \<in> set rules \<Longrightarrow> AllowArgs rule k = Some p \<Longrightarrow>
   \<not> isl (C p)"
proof (induction rules arbitrary: i aset rmap rules')
  case Nil
  then show ?case by simp
next
  case (Cons r rest)
  from compileRules_Cons_None[OF Cons.prems(1)] obtain cargs rs where
    ca: "compileArgs C (Tool r) (order i) Map.empty = Inr cargs" and
    rec: "compileRules lowerCase C order (Suc i) rest (insert (norm_name lowerCase (Tool r)) aset)
             (rmap(norm_name lowerCase (Tool r) \<mapsto> r\<lparr>compiledArgs := cargs\<rparr>)) =
             (None, aset', rmap', rs)" by blast
  from Cons.prems(2) have en: "entries (AllowArgs r) (order i)"
    and ro: "rangeOrders order (Suc i) rest" by auto
  show ?case
  proof (cases "rule = r")
    case True
    with Cons.prems(4) entries_mem[OF en] have "(k, p) \<in> set (order i)" by simp
    moreover from ca have "\<not> isl (compileArgs C (Tool r) (order i) Map.empty)" by simp
    ultimately show ?thesis unfolding compileArgs_isl by fastforce
  next
    case False
    with Cons.prems(3) have "rule \<in> set rest" by simp
    from Cons.IH[OF rec ro this Cons.prems(4)] show ?thesis .
  qed
qed

lemma Load_fst:
  "fst (Load lowerCase U C order e data) =
     (case U data of
        Inl m \<Rightarrow> Some (ParseError m)
      | Inr pol \<Rightarrow>
          if APIVersion pol = [] then Some (MissingField ''apiVersion'')
          else if Kind pol \<noteq> ''AgentPolicy'' then Some (UnexpectedKind (Kind pol))
          else fst (compileRules lowerCase C order 0 (ToolRules (Spec pol))
                 (buildAllowedSet lowerCase (AllowedTools (Spec pol)) {}) Map.empty))"
  by (simp add: Load_def Let_def split: sum.splits prod.splits option.splits)

lemma compileRules_error_iff:
  assumes "rangeOrders order i rules"
  shows "(fst (compileRules lowerCase C order i rules aset rmap) \<noteq> None) =
         (\<exists>rule \<in> set rules. \<exists>A P. AllowArgs rule A = Some P \<and> isl (C P))"
proof
  assume "fst (compileRules lowerCase C order i rules aset rmap) \<noteq> None"
  then obtain err st where "compileRules lowerCase C order i rules aset rmap = (Some err, st)"
    by (cases "compileRules lowerCase C order i rules aset rmap") auto
  from compileRules_error[OF this assms]
  show "\<exists>rule \<in> set rules. \<exists>A P. AllowArgs rule A = Some P \<and> isl (C P)" by force
next
  assume bad: "\<exists>rule \<in> set rules. \<exists>A P. AllowArgs rule A = Some P \<and> isl (C P)"
  show "fst (compileRules lowerCase C order i rules aset rmap) \<noteq> None"
  proof
    assume "fst (compileRules lowerCase C order i rules aset rmap) = None"
    then obtain a m rs where "compileRules lowerCase C order i rules aset rmap = (None, a, m, rs)"
      by (cases "compileRules lowerCase C order i rules aset rmap") auto
    from compileRules_None_patterns[OF this assms] bad show False by blast
  qed
qed

lemma distinct_singleton: "distinct xs \<Longrightarrow> set xs = {x} \<Longrightarrow> xs = [x]"
proof -
  assume d: "distinct xs" and s: "set xs = {x}"
  from d have "length xs = card (set xs)" by (simp add: distinct_card)
  with s have "length xs = 1" by simp
  then obtain y where "xs = [y]" by (cases xs) auto
  with s show ?thesis by simp
qed

lemma entries_single: "entries [k \<mapsto> v] kvs \<Longrightarrow> kvs = [(k, v)]"
proof -
  assume en: "entries [k \<mapsto> v] kvs"
  then have "distinct (map fst kvs)" by (simp add: entries_def)
  then have d: "distinct kvs" by (rule distinct_map[THEN iffD1, THEN conjunct1])
  from entries_set[OF en] have "set kvs = {(k, v)}" by (auto split: if_splits)
  with d show ?thesis by (rule distinct_singleton)
qed

lemma bad_Load:
  assumes "Unmarshal data = Inr bad_policy"
    and "Compile ''[invalid(regex'' = Inl msg"
    and "loadOrders Unmarshal order data"
  shows "Load lowerCase Unmarshal Compile order e data =
           (Some (InvalidRegex ''bad_tool'' ''pattern'' msg),
            e\<lparr>allowedSet := Some {''safe_tool''}, toolRules := Map.empty\<rparr>)"
proof -
  from assms(1,3) have "entries (AllowArgs bad_rule) (order 0)"
    by (simp add: loadOrders_def bad_policy_def policy_of_def)
  then have "entries [''pattern'' \<mapsto> ''[invalid(regex''] (order 0)"
    by (simp add: bad_rule_def rule_of_def)
  then have o: "order 0 = [(''pattern'', ''[invalid(regex'')]" by (rule entries_single)
  show ?thesis
    by (simp add: Load_def assms(1,2) o bad_policy_def bad_rule_def policy_of_def rule_of_def
        Let_def norm_safe_tool)
qed

section \<open>Engines that deny, and loads that leave the engine alone\<close>

lemma NewEngine_denies:
  "IsAllowed lowerCase Sprintf_v visit NewEngine toolName args =
     \<lparr>Allowed = False, FailedArg = [], FailedRule = []\<rparr>"
  by (simp add: IsAllowed_def NewEngine_def)

lemma nil_allowedSet_denies:
  "allowedSet e = None \<Longrightarrow>
   IsAllowed lowerCase Sprintf_v visit e toolName args =
     \<lparr>Allowed = False, FailedArg = [], FailedRule = []\<rparr>"
  by (simp add: IsAllowed_def)

lemma Load_early_error_unchanged:
  "isl (Unmarshal data) \<or>
   (\<exists>pol. Unmarshal data = Inr pol \<and> (APIVersion pol = [] \<or> Kind pol \<noteq> ''AgentPolicy'')) \<Longrightarrow>
   snd (Load lowerCase Unmarshal Compile order e data) = e"
  by (auto simp: Load_def split: sum.splits)

section \<open>The text conversion\<close>



lemma argToString_int: "argToString Sprintf_v (IntVal i) = Sprintf_d i"
  by (simp add: argToString_def)

lemma argToString_float: "argToString Sprintf_v (Float64Val f) = Sprintf_v (Float64Val f)"
  by (simp add: argToString_def)

lemma argToString_int_100: "argToString Sprintf_v (IntVal 100) = ''100''"
  unfolding argToString_int by code_simp















section \<open>The claims\<close>

text \<open>
  Claim C1 fails on the code. \<open>Load\<close> of a document with \<open>allowed_tools: [safe_tool]\<close>
  and a rule whose pattern \<open>[invalid(regex\<close> does not compile returns the pattern error,
  and leaves the engine, whatever policy it held, with the allowed-tool set
  \<open>{safe_tool}\<close> and an empty rule mapping: a tool of the previous policy is now denied
  and \<open>safe_tool\<close> is allowed.
\<close>

theorem C1_failed_reload_overwrites:
  assumes "Unmarshal data = Inr bad_policy"
    and "Compile ''[invalid(regex'' = Inl msg"
    and "loadOrders Unmarshal order data"
  shows "Load lowerCase Unmarshal Compile order e data =
           (Some (InvalidRegex ''bad_tool'' ''pattern'' msg),
            e\<lparr>allowedSet := Some {''safe_tool''}, toolRules := Map.empty\<rparr>) \<and>
         IsAllowed lowerCase Sprintf_v visit (snd (Load lowerCase Unmarshal Compile order e data)) ''old_tool'' args =
           \<lparr>Allowed = False, FailedArg = [], FailedRule = []\<rparr> \<and>
         IsAllowed lowerCase Sprintf_v visit (snd (Load lowerCase Unmarshal Compile order e data)) ''safe_tool'' args =
           \<lparr>Allowed = True, FailedArg = [], FailedRule = []\<rparr>"
  by (simp add: bad_Load[where Unmarshal=Unmarshal and data=data and Compile=Compile, OF assms] IsAllowed_def
      norm_old_tool norm_safe_tool)

theorem C1_failed_reload_overwrites_witness:
  "Load latin1_lower (parsed old_policy) prefixCompile (\<lambda>i. []) NewEngine [] = (None, old_engine) \<and>
   IsAllowed latin1_lower nil_Sprintf_v [] old_engine ''old_tool'' Map.empty =
     \<lparr>Allowed = True, FailedArg = [], FailedRule = []\<rparr> \<and>
   IsAllowed latin1_lower nil_Sprintf_v [] old_engine ''safe_tool'' Map.empty =
     \<lparr>Allowed = False, FailedArg = [], FailedRule = []\<rparr> \<and>
   parsed bad_policy [] = Inr bad_policy \<and>
   prefixCompile ''[invalid(regex'' = Inl ''error parsing regexp'' \<and>
   loadOrders (parsed bad_policy) bad_order [] \<and>
   fst (Load latin1_lower (parsed bad_policy) prefixCompile bad_order old_engine []) =
     Some (InvalidRegex ''bad_tool'' ''pattern'' ''error parsing regexp'') \<and>
   IsAllowed latin1_lower nil_Sprintf_v [] (snd (Load latin1_lower (parsed bad_policy) prefixCompile bad_order old_engine []))
     ''old_tool'' Map.empty = \<lparr>Allowed = False, FailedArg = [], FailedRule = []\<rparr> \<and>
   IsAllowed latin1_lower nil_Sprintf_v [] (snd (Load latin1_lower (parsed bad_policy) prefixCompile bad_order old_engine []))
     ''safe_tool'' Map.empty = \<lparr>Allowed = True, FailedArg = [], FailedRule = []\<rparr>"
proof -
  have p: "parsed bad_policy [] = Inr bad_policy" by (simp add: parsed_def)
  have b1: "IsAllowed latin1_lower nil_Sprintf_v [] old_engine ''old_tool'' Map.empty =
     \<lparr>Allowed = True, FailedArg = [], FailedRule = []\<rparr>"
    by (simp add: IsAllowed_def old_allowedSet old_toolRules norm_old_tool)
  have b2: "IsAllowed latin1_lower nil_Sprintf_v [] old_engine ''safe_tool'' Map.empty =
     \<lparr>Allowed = False, FailedArg = [], FailedRule = []\<rparr>"
    by (simp add: IsAllowed_def old_allowedSet old_toolRules norm_safe_tool)
  note t = C1_failed_reload_overwrites[where Unmarshal="parsed bad_policy" and data="[]"
      and Compile=prefixCompile and e=old_engine and Sprintf_v=nil_Sprintf_v and visit="[]" and args=Map.empty,
      OF p prefixCompile_bad bad_orders]
  from t have "fst (Load latin1_lower (parsed bad_policy) prefixCompile bad_order old_engine []) =
     Some (InvalidRegex ''bad_tool'' ''pattern'' ''error parsing regexp'')" by simp
  with t old_Load b1 b2 p prefixCompile_bad bad_orders show ?thesis by blast
qed

text \<open>
  Claim C2 fails on the code, by the same defect. On a new engine, the \<open>Load\<close> of the
  same document returns the pattern error and \<open>e.policy\<close> stays nil, yet \<open>IsAllowed\<close>
  allows \<open>safe_tool\<close>: no \<open>Load\<close> has returned success on this engine.
\<close>

theorem C2_failed_first_load_allows:
  assumes "Unmarshal data = Inr bad_policy"
    and "Compile ''[invalid(regex'' = Inl msg"
    and "loadOrders Unmarshal order data"
  shows "fst (Load lowerCase Unmarshal Compile order NewEngine data) =
           Some (InvalidRegex ''bad_tool'' ''pattern'' msg) \<and>
         policy (snd (Load lowerCase Unmarshal Compile order NewEngine data)) = None \<and>
         Allowed (IsAllowed lowerCase Sprintf_v visit (snd (Load lowerCase Unmarshal Compile order NewEngine data))
           ''safe_tool'' args)"
  by (simp add: bad_Load[where Unmarshal=Unmarshal and data=data and Compile=Compile, OF assms] IsAllowed_def
      norm_safe_tool NewEngine_def)

theorem C2_failed_first_load_allows_witness:
  "parsed bad_policy [] = Inr bad_policy \<and>
   prefixCompile ''[invalid(regex'' = Inl ''error parsing regexp'' \<and>
   loadOrders (parsed bad_policy) bad_order [] \<and>
   fst (Load latin1_lower (parsed bad_policy) prefixCompile bad_order NewEngine []) =
     Some (InvalidRegex ''bad_tool'' ''pattern'' ''error parsing regexp'') \<and>
   policy (snd (Load latin1_lower (parsed bad_policy) prefixCompile bad_order NewEngine [])) = None \<and>
   Allowed (IsAllowed latin1_lower nil_Sprintf_v [] (snd (Load latin1_lower (parsed bad_policy) prefixCompile bad_order NewEngine []))
     ''safe_tool'' Map.empty)"
proof -
  have p: "parsed bad_policy [] = Inr bad_policy" by (simp add: parsed_def)
  from C2_failed_first_load_allows[where Unmarshal="parsed bad_policy" and data="[]"
      and Compile=prefixCompile and Sprintf_v=nil_Sprintf_v and visit="[]" and args=Map.empty,
      OF p prefixCompile_bad bad_orders]
    p prefixCompile_bad bad_orders
  show ?thesis by blast
qed

text \<open>
  Claim C3. After a successful \<open>Load\<close>, every key of the compiled-rule mapping is in
  the allowed-tool set; and for every rule of the document, listed in \<open>allowed_tools\<close>
  or not, the normalised tool name is in the allowed-tool set and has a compiled rule, so
  that \<open>IsAllowed\<close> on that tool passes the tool-level check and answers from the
  rule's arguments alone.
\<close>

theorem C3_rule_implies_allowed:
  assumes "Load lowerCase Unmarshal Compile order e data = (None, e')"
    and "Unmarshal data = Inr pol"
  shows "\<exists>aset. allowedSet e' = Some aset \<and> dom (toolRules e') \<subseteq> aset \<and>
           (\<forall>rule \<in> set (ToolRules (Spec pol)).
              ToLower lowerCase (TrimSpace (Tool rule)) \<in> aset \<and>
              (\<exists>r. toolRules e' (ToLower lowerCase (TrimSpace (Tool rule))) = Some r \<and>
                 IsAllowed lowerCase Sprintf_v visit e' (Tool rule) args =
                   (if compiledArgs r = Map.empty
                    then \<lparr>Allowed = True, FailedArg = [], FailedRule = []\<rparr>
                    else checkArgs Sprintf_v r args visit)))"
proof -
  from Load_sets[OF assms] obtain aset where a: "allowedSet e' = Some aset"
    and sub: "norm_name lowerCase ` Tool ` set (ToolRules (Spec pol)) \<subseteq> aset"
    and d: "dom (toolRules e') = norm_name lowerCase ` Tool ` set (ToolRules (Spec pol))" by blast
  have "norm_name lowerCase (Tool rule) \<in> aset \<and>
        (\<exists>r. toolRules e' (norm_name lowerCase (Tool rule)) = Some r \<and>
           IsAllowed lowerCase Sprintf_v visit e' (Tool rule) args =
             (if compiledArgs r = Map.empty
              then \<lparr>Allowed = True, FailedArg = [], FailedRule = []\<rparr>
              else checkArgs Sprintf_v r args visit))"
    if r: "rule \<in> set (ToolRules (Spec pol))" for rule
  proof -
    from r sub have m: "norm_name lowerCase (Tool rule) \<in> aset" by blast
    from r d have "norm_name lowerCase (Tool rule) \<in> dom (toolRules e')" by simp
    then obtain r' where r': "toolRules e' (norm_name lowerCase (Tool rule)) = Some r'" by blast
    with a m show ?thesis by (simp add: IsAllowed_def)
  qed
  with a d sub show ?thesis by auto
qed

theorem C3_rule_implies_allowed_witness:
  "Load latin1_lower (parsed query_policy) prefixCompile query_order NewEngine [] = (None, query_engine) \<and>
   parsed query_policy [] = Inr query_policy \<and>
   query_rule \<in> set (ToolRules (Spec query_policy)) \<and>
   ToLower latin1_lower (TrimSpace (Tool query_rule)) \<notin>
     (\<lambda>tool. ToLower latin1_lower (TrimSpace tool)) ` set (AllowedTools (Spec query_policy)) \<and>
   (\<exists>aset. allowedSet query_engine = Some aset \<and> dom (toolRules query_engine) \<subseteq> aset \<and>
      ToLower latin1_lower (TrimSpace (Tool query_rule)) \<in> aset)"
proof -
  have p: "parsed query_policy [] = Inr query_policy" by (simp add: parsed_def)
  have r: "query_rule \<in> set (ToolRules (Spec query_policy))"
    by (simp add: query_policy_def policy_of_def)
  have n: "ToLower latin1_lower (TrimSpace (Tool query_rule)) \<notin>
     (\<lambda>tool. ToLower latin1_lower (TrimSpace tool)) ` set (AllowedTools (Spec query_policy))"
    by (simp add: query_policy_def policy_of_def query_rule_def rule_of_def norm_evals)
  from C3_rule_implies_allowed[OF query_Load p, of nil_Sprintf_v "[]" Map.empty] r
  have "\<exists>aset. allowedSet query_engine = Some aset \<and> dom (toolRules query_engine) \<subseteq> aset \<and>
      ToLower latin1_lower (TrimSpace (Tool query_rule)) \<in> aset" by blast
  with query_Load p r n show ?thesis by blast
qed

text \<open>
  Claim C4, as amended. After a successful \<open>Load\<close>, for a tool whose compiled rule
  declares at least one argument pattern and for every argument map:
  \<^item> the call is allowed if and only if every constrained argument is present and its
    text form matches its pattern;
  \<^item> an allowing result has an empty \<open>FailedArg\<close> and \<open>FailedRule\<close>;
  \<^item> a denial reports some constrained argument that is absent or does not match, and
    that argument's declared pattern string;
  \<^item> when exactly one constrained argument \<open>A\<close> with pattern \<open>P\<close> is absent or does
    not match, the denial reports \<open>A\<close> and \<open>P\<close>.
  When several constrained arguments fail, the one reported is the first the loop
  visits, not any given one of them.
\<close>

theorem C4_argument_validation:
  assumes "Load lowerCase Unmarshal Compile order e data = (None, e')"
    and "loadOrders Unmarshal order data"
    and "toolRules e' (ToLower lowerCase (TrimSpace toolName)) = Some rule"
    and "AllowArgs rule \<noteq> Map.empty"
    and "entries (compiledArgs rule) visit"
    and "res = IsAllowed lowerCase Sprintf_v visit e' toolName args"
  shows
   "(Allowed res \<longleftrightarrow>
       (\<forall>A P. AllowArgs rule A = Some P \<longrightarrow> argPasses Compile Sprintf_v args A P)) \<and>
    (Allowed res \<longrightarrow> FailedArg res = [] \<and> FailedRule res = []) \<and>
    (\<not> Allowed res \<longrightarrow>
       (\<exists>P. AllowArgs rule (FailedArg res) = Some P \<and> FailedRule res = P \<and>
            \<not> argPasses Compile Sprintf_v args (FailedArg res) P)) \<and>
    (\<forall>A P. AllowArgs rule A = Some P \<and> \<not> argPasses Compile Sprintf_v args A P \<and>
       (\<forall>B Q. B \<noteq> A \<and> AllowArgs rule B = Some Q \<longrightarrow>
              argPasses Compile Sprintf_v args B Q) \<longrightarrow>
       res = \<lparr>Allowed = False, FailedArg = A, FailedRule = P\<rparr>)"
proof -
  have rc: "rule_compiled Compile rule" by (rule Load_rule_compiled[OF assms(1,2,3)])
  have res: "res = checkArgs Sprintf_v rule args visit"
    unfolding assms(6) by (rule IsAllowed_constrained[OF assms(1,2,3,4)])
  have iff: "Allowed res \<longleftrightarrow>
       (\<forall>A P. AllowArgs rule A = Some P \<longrightarrow> argPasses Compile Sprintf_v args A P)"
    unfolding res checkArgs_Allowed by (rule visit_all_pass[OF rc assms(5)])
  have ok: "Allowed res \<longrightarrow> FailedArg res = [] \<and> FailedRule res = []"
  proof
    assume "Allowed res"
    then have "checkArgs Sprintf_v rule args visit = allow"
      unfolding res by (rule checkArgs_allow)
    then show "FailedArg res = [] \<and> FailedRule res = []" by (simp add: res allow_def)
  qed
  have den: "\<exists>P. AllowArgs rule (FailedArg res) = Some P \<and> FailedRule res = P \<and>
            \<not> argPasses Compile Sprintf_v args (FailedArg res) P" if d: "\<not> Allowed res"
  proof -
    from d checkArgs_denied[of Sprintf_v rule args visit] res obtain rx where
      rx: "(FailedArg res, rx) \<in> set visit" "\<not> passes Sprintf_v args (FailedArg res) rx"
        "FailedRule res = lookupStr (AllowArgs rule) (FailedArg res)" by auto
    from visit_pattern[OF rc assms(5) rx(1), of Sprintf_v args] rx(2,3)
    show ?thesis by auto
  qed
  have only: "res = \<lparr>Allowed = False, FailedArg = A, FailedRule = P\<rparr>"
    if AP: "AllowArgs rule A = Some P" and f: "\<not> argPasses Compile Sprintf_v args A P"
      and o: "\<forall>B Q. B \<noteq> A \<and> AllowArgs rule B = Some Q \<longrightarrow>
              argPasses Compile Sprintf_v args B Q" for A P
  proof -
    from iff AP f have d: "\<not> Allowed res" by blast
    from den[OF d] obtain P' where P': "AllowArgs rule (FailedArg res) = Some P'"
      "FailedRule res = P'" "\<not> argPasses Compile Sprintf_v args (FailedArg res) P'" by blast
    with o have "FailedArg res = A" by blast
    with P' AP have "FailedRule res = P" by simp
    with d \<open>FailedArg res = A\<close> show ?thesis by (cases res) simp
  qed
  from iff ok den only show ?thesis by blast
qed

theorem C4_argument_validation_witness:
  "Load latin1_lower (parsed query_policy) prefixCompile query_order NewEngine [] = (None, query_engine) \<and>
   loadOrders (parsed query_policy) query_order [] \<and>
   toolRules query_engine (ToLower latin1_lower (TrimSpace ''Run_Query'')) =
     Some (query_rule\<lparr>compiledArgs :=
       [''query'' \<mapsto> hasPrefix ''SELECT'', ''database'' \<mapsto> hasPrefix ''prod'']\<rparr>) \<and>
   AllowArgs query_rule \<noteq> Map.empty \<and>
   entries [''query'' \<mapsto> hasPrefix ''SELECT'', ''database'' \<mapsto> hasPrefix ''prod'']
     [(''database'', hasPrefix ''prod''), (''query'', hasPrefix ''SELECT'')] \<and>
   IsAllowed latin1_lower nil_Sprintf_v [(''database'', hasPrefix ''prod''), (''query'', hasPrefix ''SELECT'')]
     query_engine ''Run_Query''
     [''database'' \<mapsto> StringVal ''prod'', ''query'' \<mapsto> StringVal ''DROP TABLE users''] =
     \<lparr>Allowed = False, FailedArg = ''query'', FailedRule = ''^SELECT''\<rparr>"
proof -
  let ?rule = "query_rule\<lparr>compiledArgs :=
       [''query'' \<mapsto> hasPrefix ''SELECT'', ''database'' \<mapsto> hasPrefix ''prod'']\<rparr>"
  let ?visit = "[(''database'', hasPrefix ''prod''), (''query'', hasPrefix ''SELECT'')]"
  let ?args = "[''database'' \<mapsto> StringVal ''prod'', ''query'' \<mapsto> StringVal ''DROP TABLE users'']"
  have h3: "toolRules query_engine (ToLower latin1_lower (TrimSpace ''Run_Query'')) = Some ?rule"
    by (simp add: norm_Run_Query query_toolRules_run_query)
  have h4: "AllowArgs ?rule \<noteq> Map.empty" by (simp add: query_rule_AllowArgs)
  have h5: "entries (compiledArgs ?rule) ?visit" by (simp add: entries_def fun_upd_twist)
  have a1: "AllowArgs ?rule ''query'' = Some ''^SELECT''" by (simp add: query_rule_AllowArgs)
  have a2: "\<not> argPasses prefixCompile nil_Sprintf_v ?args ''query'' ''^SELECT''"
    by (simp add: argPasses_def prefixCompile_SELECT argToString_def hasPrefix_def)
  have a3: "\<forall>B Q. B \<noteq> ''query'' \<and> AllowArgs ?rule B = Some Q \<longrightarrow>
      argPasses prefixCompile nil_Sprintf_v ?args B Q"
    by (auto simp: query_rule_AllowArgs argPasses_def prefixCompile_prod argToString_def
        hasPrefix_def split: if_splits)
  from C4_argument_validation[OF query_Load query_orders h3 h4 h5 refl, of nil_Sprintf_v ?args]
    a1 a2 a3
  have "IsAllowed latin1_lower nil_Sprintf_v ?visit query_engine ''Run_Query'' ?args =
     \<lparr>Allowed = False, FailedArg = ''query'', FailedRule = ''^SELECT''\<rparr>" by blast
  with query_Load query_orders h3 h4 h5 show ?thesis by (simp add: query_rule_AllowArgs)
qed

text \<open>
  Claim C4 as stated fails: with \<open>database\<close> and \<open>query\<close> both constrained and both
  absent, the claim asks for \<open>FailedArg = database\<close> and for \<open>FailedArg = query\<close> at
  once. Whichever of the two the loop visits first is reported, and the other is not.
\<close>

theorem C4_counterexample:
  "Load latin1_lower (parsed query_policy) prefixCompile query_order NewEngine [] = (None, query_engine) \<and>
   map_option AllowArgs (toolRules query_engine (ToLower latin1_lower (TrimSpace ''run_query''))) =
     Some [''query'' \<mapsto> ''^SELECT'', ''database'' \<mapsto> ''^prod''] \<and>
   IsAllowed latin1_lower nil_Sprintf_v [(''database'', hasPrefix ''prod''), (''query'', hasPrefix ''SELECT'')]
     query_engine ''run_query'' Map.empty =
     \<lparr>Allowed = False, FailedArg = ''database'', FailedRule = ''^prod''\<rparr> \<and>
   IsAllowed latin1_lower nil_Sprintf_v [(''database'', hasPrefix ''prod''), (''query'', hasPrefix ''SELECT'')]
     query_engine ''run_query'' Map.empty \<noteq>
     \<lparr>Allowed = False, FailedArg = ''query'', FailedRule = ''^SELECT''\<rparr> \<and>
   IsAllowed latin1_lower nil_Sprintf_v [(''query'', hasPrefix ''SELECT''), (''database'', hasPrefix ''prod'')]
     query_engine ''run_query'' Map.empty =
     \<lparr>Allowed = False, FailedArg = ''query'', FailedRule = ''^SELECT''\<rparr> \<and>
   IsAllowed latin1_lower nil_Sprintf_v [(''query'', hasPrefix ''SELECT''), (''database'', hasPrefix ''prod'')]
     query_engine ''run_query'' Map.empty \<noteq>
     \<lparr>Allowed = False, FailedArg = ''database'', FailedRule = ''^prod''\<rparr>"
  by (simp add: query_Load norm_run_query query_toolRules_run_query query_rule_AllowArgs
      IsAllowed_def query_allowedSet lookupStr_def)

text \<open>
  Claim C5. After a successful \<open>Load\<close>, a tool whose normalised (trimmed, lower-cased)
  name is not in the allowed-tool set is denied with an empty \<open>FailedArg\<close> and an empty
  \<open>FailedRule\<close>, whatever the arguments, the visiting order and the text conversion
  are: no argument rule is looked at.
\<close>

theorem C5_tool_level_deny:
  assumes "Load lowerCase Unmarshal Compile order e data = (None, e')"
    and "allowedSet e' = Some aset"
    and "norm_name lowerCase toolName \<notin> aset"
  shows "IsAllowed lowerCase Sprintf_v visit e' toolName args =
           \<lparr>Allowed = False, FailedArg = [], FailedRule = []\<rparr>"
  using assms(2,3) by (simp add: IsAllowed_def)

theorem C5_tool_level_deny_witness:
  "Load latin1_lower (parsed query_policy) prefixCompile query_order NewEngine [] = (None, query_engine) \<and>
   allowedSet query_engine = Some {''ping'', ''run_query'', ''safe_tool''} \<and>
   norm_name latin1_lower ''Drop_Table'' \<notin> {''ping'', ''run_query'', ''safe_tool''} \<and>
   IsAllowed latin1_lower nil_Sprintf_v [] query_engine ''Drop_Table'' [''query'' \<mapsto> StringVal ''SELECT 1''] =
     \<lparr>Allowed = False, FailedArg = [], FailedRule = []\<rparr>"
proof -
  have n: "norm_name latin1_lower ''Drop_Table'' \<notin> {''ping'', ''run_query'', ''safe_tool''}"
    by (simp add: norm_Drop_Table)
  from C5_tool_level_deny[OF query_Load query_allowedSet n] query_Load query_allowedSet n
  show ?thesis by simp
qed

text \<open>
  Claim C6. After a successful \<open>Load\<close>, a tool whose normalised name is in the
  allowed-tool set and which has no compiled rule, or whose rule declares no argument
  pattern, is allowed for every argument map.
\<close>

theorem C6_no_constraints_allow:
  assumes "Load lowerCase Unmarshal Compile order e data = (None, e')"
    and "loadOrders Unmarshal order data"
    and "allowedSet e' = Some aset"
    and "norm_name lowerCase toolName \<in> aset"
    and "toolRules e' (norm_name lowerCase toolName) = None \<or>
         (\<exists>rule. toolRules e' (norm_name lowerCase toolName) = Some rule \<and> AllowArgs rule = Map.empty)"
  shows "IsAllowed lowerCase Sprintf_v visit e' toolName args =
           \<lparr>Allowed = True, FailedArg = [], FailedRule = []\<rparr>"
proof (cases "toolRules e' (norm_name lowerCase toolName)")
  case None
  with assms(3,4) show ?thesis by (simp add: IsAllowed_def)
next
  case (Some rule)
  with assms(5) have "AllowArgs rule = Map.empty" by simp
  moreover from Load_rule_compiled[OF assms(1,2) Some]
  have "dom (compiledArgs rule) = dom (AllowArgs rule)"
    unfolding rule_compiled_def by blast
  ultimately have "compiledArgs rule = Map.empty" by simp
  with assms(3,4) Some show ?thesis by (simp add: IsAllowed_def)
qed

theorem C6_no_constraints_allow_witness:
  "Load latin1_lower (parsed query_policy) prefixCompile query_order NewEngine [] = (None, query_engine) \<and>
   loadOrders (parsed query_policy) query_order [] \<and>
   allowedSet query_engine = Some {''ping'', ''run_query'', ''safe_tool''} \<and>
   toolRules query_engine (norm_name latin1_lower ''safe_tool'') = None \<and>
   IsAllowed latin1_lower nil_Sprintf_v [] query_engine ''safe_tool'' [''dangerous'' \<mapsto> StringVal ''../../etc/passwd''] =
     \<lparr>Allowed = True, FailedArg = [], FailedRule = []\<rparr> \<and>
   toolRules query_engine (norm_name latin1_lower '' PING '') = Some (rule_of ''ping'' []) \<and>
   AllowArgs (rule_of ''ping'' []) = Map.empty \<and>
   IsAllowed latin1_lower nil_Sprintf_v [] query_engine '' PING '' Map.empty =
     \<lparr>Allowed = True, FailedArg = [], FailedRule = []\<rparr>"
proof -
  have a: "norm_name latin1_lower ''safe_tool'' \<in> {''ping'', ''run_query'', ''safe_tool''}"
    by (simp add: norm_safe_tool)
  have b: "toolRules query_engine (norm_name latin1_lower ''safe_tool'') = None"
    by (simp add: norm_safe_tool query_toolRules_safe_tool)
  have c: "norm_name latin1_lower '' PING '' \<in> {''ping'', ''run_query'', ''safe_tool''}"
    by (simp add: norm_PING)
  have d: "toolRules query_engine (norm_name latin1_lower '' PING '') = Some (rule_of ''ping'' [])"
    by (simp add: norm_PING query_toolRules_ping)
  have d': "AllowArgs (rule_of ''ping'' []) = Map.empty" by (simp add: rule_of_def)
  have r1: "IsAllowed latin1_lower nil_Sprintf_v [] query_engine ''safe_tool''
      [''dangerous'' \<mapsto> StringVal ''../../etc/passwd''] =
     \<lparr>Allowed = True, FailedArg = [], FailedRule = []\<rparr>"
    using C6_no_constraints_allow[OF query_Load query_orders query_allowedSet a] b by blast
  have r2: "IsAllowed latin1_lower nil_Sprintf_v [] query_engine '' PING '' Map.empty =
     \<lparr>Allowed = True, FailedArg = [], FailedRule = []\<rparr>"
    using C6_no_constraints_allow[OF query_Load query_orders query_allowedSet c] d d' by blast
  from query_Load query_orders query_allowedSet b d d' r1 r2 show ?thesis by blast
qed

text \<open>
  Claim C7. For every engine, \<open>IsAllowed\<close> on a tool name is \<open>IsAllowed\<close> on the
  trimmed and lower-cased name, for every name, a sequence of bytes that need not be ASCII
  nor well-formed UTF-8, given the three properties \<open>caseTable\<close> of the table that
  \<open>unicode.ToLower\<close> reads; \<open>"Fetch_URL"\<close> and \<open>" fetch_url "\<close> get the same result; and
  the loader keys the allowed-tool set and the rule mapping with the same
  trim-then-lowercase function.
\<close>

theorem C7_normalised_names:
  "(caseTable lowerCase \<longrightarrow>
      IsAllowed lowerCase Sprintf_v visit e toolName args =
        IsAllowed lowerCase Sprintf_v visit e (ToLower lowerCase (TrimSpace toolName)) args) \<and>
   IsAllowed lowerCase Sprintf_v visit e ''Fetch_URL'' args =
     IsAllowed lowerCase Sprintf_v visit e '' fetch_url '' args \<and>
   (Load lowerCase Unmarshal Compile order e0 data = (None, e') \<and> Unmarshal data = Inr pol \<longrightarrow>
      allowedSet e' =
        Some ((\<lambda>tool. ToLower lowerCase (TrimSpace tool)) ` set (AllowedTools (Spec pol)) \<union>
              (\<lambda>rule. ToLower lowerCase (TrimSpace (Tool rule))) ` set (ToolRules (Spec pol))) \<and>
      dom (toolRules e') =
        (\<lambda>rule. ToLower lowerCase (TrimSpace (Tool rule))) ` set (ToolRules (Spec pol)))"
proof (intro conjI impI)
  assume "caseTable lowerCase"
  then have "ToLower lowerCase (TrimSpace (ToLower lowerCase (TrimSpace toolName))) =
      ToLower lowerCase (TrimSpace toolName)"
    by (rule norm_name_idem)
  then show "IsAllowed lowerCase Sprintf_v visit e toolName args =
     IsAllowed lowerCase Sprintf_v visit e (ToLower lowerCase (TrimSpace toolName)) args"
    by (simp only: IsAllowed_def)
next
  show "IsAllowed lowerCase Sprintf_v visit e ''Fetch_URL'' args =
     IsAllowed lowerCase Sprintf_v visit e '' fetch_url '' args"
    by (simp only: IsAllowed_def norm_Fetch_URL norm_fetch_url)
next
  assume a: "Load lowerCase Unmarshal Compile order e0 data = (None, e') \<and> Unmarshal data = Inr pol"
  then have l: "Load lowerCase Unmarshal Compile order e0 data = (None, e')"
    and u: "Unmarshal data = Inr pol" by simp_all
  from Load_sets[OF l u]
  show "allowedSet e' =
        Some ((\<lambda>tool. ToLower lowerCase (TrimSpace tool)) ` set (AllowedTools (Spec pol)) \<union>
              (\<lambda>rule. ToLower lowerCase (TrimSpace (Tool rule))) ` set (ToolRules (Spec pol)))"
    and "dom (toolRules e') =
        (\<lambda>rule. ToLower lowerCase (TrimSpace (Tool rule))) ` set (ToolRules (Spec pol))"
    by (simp_all add: image_image)
qed

theorem C7_normalised_names_witness:
  "caseTable latin1_lower \<and>
   ToLower latin1_lower
     (TrimSpace ([CHR 0xC2, CHR 0xA0] @ ''Ping'' @ [CHR 0xE3, CHR 0x80, CHR 0x80])) = ''ping'' \<and>
   Load latin1_lower (parsed query_policy) prefixCompile query_order NewEngine [] =
     (None, query_engine) \<and>
   parsed query_policy [] = Inr query_policy \<and>
   allowedSet query_engine =
     Some ((\<lambda>tool. ToLower latin1_lower (TrimSpace tool)) ` set (AllowedTools (Spec query_policy)) \<union>
           (\<lambda>rule. ToLower latin1_lower (TrimSpace (Tool rule))) ` set (ToolRules (Spec query_policy))) \<and>
   dom (toolRules query_engine) =
     (\<lambda>rule. ToLower latin1_lower (TrimSpace (Tool rule))) ` set (ToolRules (Spec query_policy)) \<and>
   IsAllowed latin1_lower nil_Sprintf_v [] query_engine
       ([CHR 0xC2, CHR 0xA0] @ ''Ping'' @ [CHR 0xE3, CHR 0x80, CHR 0x80]) Map.empty =
     IsAllowed latin1_lower nil_Sprintf_v [] query_engine ''ping'' Map.empty"
proof -
  let ?name = "[CHR 0xC2, CHR 0xA0] @ ''Ping'' @ [CHR 0xE3, CHR 0x80, CHR 0x80]"
  have p: "parsed query_policy [] = Inr query_policy" by (simp add: parsed_def)
  have t: "ToLower latin1_lower (TrimSpace ?name) = ''ping''"
    by (simp add: norm_eval decode_eval)
  note c = C7_normalised_names[where lowerCase = latin1_lower and Sprintf_v = nil_Sprintf_v
      and visit = "[]" and e = query_engine and toolName = ?name and args = Map.empty
      and Unmarshal = "parsed query_policy" and Compile = prefixCompile
      and order = query_order and ?e0.0 = NewEngine and data = "[]" and e' = query_engine
      and pol = query_policy]
  from c caseTable_latin1
  have n: "IsAllowed latin1_lower nil_Sprintf_v [] query_engine ?name Map.empty =
     IsAllowed latin1_lower nil_Sprintf_v [] query_engine (ToLower latin1_lower (TrimSpace ?name))
       Map.empty"
    by blast
  from c query_Load p
  have s: "allowedSet query_engine =
     Some ((\<lambda>tool. ToLower latin1_lower (TrimSpace tool)) ` set (AllowedTools (Spec query_policy)) \<union>
           (\<lambda>rule. ToLower latin1_lower (TrimSpace (Tool rule))) ` set (ToolRules (Spec query_policy)))"
    and d: "dom (toolRules query_engine) =
     (\<lambda>rule. ToLower latin1_lower (TrimSpace (Tool rule))) ` set (ToolRules (Spec query_policy))"
    by blast+
  from n have n': "IsAllowed latin1_lower nil_Sprintf_v [] query_engine ?name Map.empty =
     IsAllowed latin1_lower nil_Sprintf_v [] query_engine ''ping'' Map.empty"
    by (simp only: t)
  show ?thesis
    by (intro conjI) (rule caseTable_latin1 t query_Load p s d n')+
qed

text \<open>
  Claim C8. \<open>Load\<close> returns an error if and only if parsing fails, or \<open>apiVersion\<close> is
  empty, or \<open>kind\<close> is not \<open>AgentPolicy\<close>, or some argument pattern of some rule does
  not compile. A parse error carries the parser's error; a missing-field error names
  \<open>apiVersion\<close>; a kind error carries the kind found; a pattern error names the tool
  and the argument of a pattern that does not compile, with the compiler's error.
\<close>

theorem C8_Load_errors:
  assumes "loadOrders Unmarshal order data"
  shows
   "(fst (Load lowerCase Unmarshal Compile order e data) \<noteq> None \<longleftrightarrow>
       isl (Unmarshal data) \<or>
       (\<exists>pol. Unmarshal data = Inr pol \<and>
          (APIVersion pol = [] \<or> Kind pol \<noteq> ''AgentPolicy'' \<or>
           (\<exists>rule \<in> set (ToolRules (Spec pol)). \<exists>A P.
              AllowArgs rule A = Some P \<and> isl (Compile P))))) \<and>
    (\<forall>err. fst (Load lowerCase Unmarshal Compile order e data) = Some err \<longrightarrow>
       (case err of
          ParseError m \<Rightarrow> Unmarshal data = Inl m
        | MissingField f \<Rightarrow>
            f = ''apiVersion'' \<and> (\<exists>pol. Unmarshal data = Inr pol \<and> APIVersion pol = [])
        | UnexpectedKind k \<Rightarrow>
            (\<exists>pol. Unmarshal data = Inr pol \<and> Kind pol = k \<and> k \<noteq> ''AgentPolicy'')
        | InvalidRegex tool arg m \<Rightarrow>
            (\<exists>pol. Unmarshal data = Inr pol \<and>
               (\<exists>rule \<in> set (ToolRules (Spec pol)). Tool rule = tool \<and>
                  (\<exists>P. AllowArgs rule arg = Some P \<and> Compile P = Inl m)))))"
proof (cases "Unmarshal data")
  case (Inl m)
  then show ?thesis by (simp add: Load_fst)
next
  case (Inr pol)
  with assms have ro: "rangeOrders order 0 (ToolRules (Spec pol))"
    by (simp add: loadOrders_def)
  show ?thesis
  proof (cases "APIVersion pol = [] \<or> Kind pol \<noteq> ''AgentPolicy''")
    case True
    with Inr show ?thesis by (auto simp: Load_fst)
  next
    case False
    let ?cr = "compileRules lowerCase Compile order 0 (ToolRules (Spec pol))
                 (buildAllowedSet lowerCase (AllowedTools (Spec pol)) {}) Map.empty"
    from False Inr have f: "fst (Load lowerCase Unmarshal Compile order e data) = fst ?cr"
      by (simp add: Load_fst)
    have iff: "(fst ?cr \<noteq> None) =
         (\<exists>rule \<in> set (ToolRules (Spec pol)). \<exists>A P. AllowArgs rule A = Some P \<and> isl (Compile P))"
      by (rule compileRules_error_iff[OF ro])
    have named: "\<exists>rule \<in> set (ToolRules (Spec pol)). \<exists>A P m. AllowArgs rule A = Some P \<and>
        Compile P = Inl m \<and> err = InvalidRegex (Tool rule) A m" if "fst ?cr = Some err" for err
    proof -
      from that obtain st where "?cr = (Some err, st)" by (cases ?cr) auto
      from compileRules_error[OF this ro] show ?thesis .
    qed
    have "case err of
          ParseError m \<Rightarrow> Unmarshal data = Inl m
        | MissingField f \<Rightarrow>
            f = ''apiVersion'' \<and> (\<exists>pol. Unmarshal data = Inr pol \<and> APIVersion pol = [])
        | UnexpectedKind k \<Rightarrow>
            (\<exists>pol. Unmarshal data = Inr pol \<and> Kind pol = k \<and> k \<noteq> ''AgentPolicy'')
        | InvalidRegex tool arg m \<Rightarrow>
            (\<exists>pol. Unmarshal data = Inr pol \<and>
               (\<exists>rule \<in> set (ToolRules (Spec pol)). Tool rule = tool \<and>
                  (\<exists>P. AllowArgs rule arg = Some P \<and> Compile P = Inl m)))"
      if "fst ?cr = Some err" for err
    proof -
      from named[OF that] obtain rule A P m where
        r: "rule \<in> set (ToolRules (Spec pol))" "AllowArgs rule A = Some P" "Compile P = Inl m"
        and err: "err = InvalidRegex (Tool rule) A m" by blast
      from r have "\<exists>rule' \<in> set (ToolRules (Spec pol)). Tool rule' = Tool rule \<and>
                  (\<exists>P. AllowArgs rule' A = Some P \<and> Compile P = Inl m)" by blast
      with Inr show ?thesis unfolding err by simp
    qed
    with f iff False Inr show ?thesis by simp
  qed
qed

theorem C8_Load_errors_witness:
  "loadOrders (parsed bad_policy) bad_order [] \<and>
   parsed bad_policy [] = Inr bad_policy \<and>
   bad_rule \<in> set (ToolRules (Spec bad_policy)) \<and>
   AllowArgs bad_rule ''pattern'' = Some ''[invalid(regex'' \<and>
   isl (prefixCompile ''[invalid(regex'') \<and>
   fst (Load latin1_lower (parsed bad_policy) prefixCompile bad_order NewEngine []) \<noteq> None"
proof -
  have p: "parsed bad_policy [] = Inr bad_policy" by (simp add: parsed_def)
  have r: "bad_rule \<in> set (ToolRules (Spec bad_policy))"
    by (simp add: bad_policy_def policy_of_def)
  have a: "AllowArgs bad_rule ''pattern'' = Some ''[invalid(regex''"
    by (simp add: bad_rule_def rule_of_def)
  have c: "isl (prefixCompile ''[invalid(regex'')" by (simp add: prefixCompile_bad)
  from p r a c have "\<exists>pol. parsed bad_policy [] = Inr pol \<and>
          (APIVersion pol = [] \<or> Kind pol \<noteq> ''AgentPolicy'' \<or>
           (\<exists>rule \<in> set (ToolRules (Spec pol)). \<exists>A P.
              AllowArgs rule A = Some P \<and> isl (prefixCompile P)))" by blast
  with C8_Load_errors[where Unmarshal="parsed bad_policy" and order=bad_order and data="[]"
      and Compile=prefixCompile and e=NewEngine, OF bad_orders]
  have "fst (Load latin1_lower (parsed bad_policy) prefixCompile bad_order NewEngine []) \<noteq> None" by blast
  with bad_orders p r a c show ?thesis by blast
qed




text \<open>
  Claim C10. After a successful \<open>Load\<close>, for a tool with a compiled rule, two argument
  maps that agree on every argument name the rule constrains get the same result from
  \<open>IsAllowed\<close> under the same visiting order, and the same verdict under any two
  visiting orders: entries the rule does not name have no influence.
\<close>

theorem C10_other_arguments_ignored:
  assumes "Load lowerCase Unmarshal Compile order e data = (None, e')"
    and "loadOrders Unmarshal order data"
    and "toolRules e' (ToLower lowerCase (TrimSpace toolName)) = Some rule"
    and "entries (compiledArgs rule) visit"
    and "entries (compiledArgs rule) visit'"
    and "\<forall>A \<in> dom (AllowArgs rule). args1 A = args2 A"
  shows "IsAllowed lowerCase Sprintf_v visit e' toolName args1 =
           IsAllowed lowerCase Sprintf_v visit e' toolName args2 \<and>
         Allowed (IsAllowed lowerCase Sprintf_v visit e' toolName args1) =
           Allowed (IsAllowed lowerCase Sprintf_v visit' e' toolName args2)"
proof -
  from Load_rules_allowed[OF assms(1)] obtain aset where
    a: "allowedSet e' = Some aset" "dom (toolRules e') \<subseteq> aset" by blast
  with assms(3) have m: "norm_name lowerCase toolName \<in> aset" by blast
  have isa: "IsAllowed lowerCase Sprintf_v v e' toolName args =
      (if compiledArgs rule = Map.empty
       then \<lparr>Allowed = True, FailedArg = [], FailedRule = []\<rparr>
       else checkArgs Sprintf_v rule args v)" for v args
    using a m assms(3) by (simp add: IsAllowed_def)
  from Load_rule_compiled[OF assms(1,2,3)]
  have dm: "dom (compiledArgs rule) = dom (AllowArgs rule)"
    unfolding rule_compiled_def by blast
  have keys: "fst ` set v \<subseteq> dom (AllowArgs rule)" if "entries (compiledArgs rule) v" for v
    using entries_set[OF that] dm by auto
  have c1: "checkArgs Sprintf_v rule args1 v = checkArgs Sprintf_v rule args2 v"
    if "entries (compiledArgs rule) v" for v
    using keys[OF that] assms(6) by (intro checkArgs_cong) blast
  have "Allowed (checkArgs Sprintf_v rule args2 visit) =
        Allowed (checkArgs Sprintf_v rule args2 visit')"
    unfolding checkArgs_Allowed entries_set[OF assms(4)] entries_set[OF assms(5)] ..
  with c1[OF assms(4)] show ?thesis by (simp add: isa)
qed

theorem C10_other_arguments_ignored_witness:
  "Load latin1_lower (parsed query_policy) prefixCompile query_order NewEngine [] = (None, query_engine) \<and>
   loadOrders (parsed query_policy) query_order [] \<and>
   toolRules query_engine (ToLower latin1_lower (TrimSpace ''Run_Query'')) =
     Some (query_rule\<lparr>compiledArgs :=
       [''query'' \<mapsto> hasPrefix ''SELECT'', ''database'' \<mapsto> hasPrefix ''prod'']\<rparr>) \<and>
   entries [''query'' \<mapsto> hasPrefix ''SELECT'', ''database'' \<mapsto> hasPrefix ''prod'']
     [(''database'', hasPrefix ''prod''), (''query'', hasPrefix ''SELECT'')] \<and>
   entries [''query'' \<mapsto> hasPrefix ''SELECT'', ''database'' \<mapsto> hasPrefix ''prod'']
     [(''query'', hasPrefix ''SELECT''), (''database'', hasPrefix ''prod'')] \<and>
   dom (AllowArgs query_rule) = {''database'', ''query''} \<and>
   IsAllowed latin1_lower nil_Sprintf_v [(''database'', hasPrefix ''prod''), (''query'', hasPrefix ''SELECT'')]
     query_engine ''Run_Query''
     [''database'' \<mapsto> StringVal ''prod'', ''query'' \<mapsto> StringVal ''DROP TABLE users'',
      ''extra'' \<mapsto> StringVal ''SELECT 1''] =
   IsAllowed latin1_lower nil_Sprintf_v [(''database'', hasPrefix ''prod''), (''query'', hasPrefix ''SELECT'')]
     query_engine ''Run_Query''
     [''database'' \<mapsto> StringVal ''prod'', ''query'' \<mapsto> StringVal ''DROP TABLE users'',
      ''note'' \<mapsto> BoolVal True] \<and>
   Allowed (IsAllowed latin1_lower nil_Sprintf_v
     [(''database'', hasPrefix ''prod''), (''query'', hasPrefix ''SELECT'')]
     query_engine ''Run_Query''
     [''database'' \<mapsto> StringVal ''prod'', ''query'' \<mapsto> StringVal ''DROP TABLE users'',
      ''extra'' \<mapsto> StringVal ''SELECT 1'']) =
   Allowed (IsAllowed latin1_lower nil_Sprintf_v
     [(''query'', hasPrefix ''SELECT''), (''database'', hasPrefix ''prod'')]
     query_engine ''Run_Query''
     [''database'' \<mapsto> StringVal ''prod'', ''query'' \<mapsto> StringVal ''DROP TABLE users'',
      ''note'' \<mapsto> BoolVal True])"
proof -
  let ?rule = "query_rule\<lparr>compiledArgs :=
       [''query'' \<mapsto> hasPrefix ''SELECT'', ''database'' \<mapsto> hasPrefix ''prod'']\<rparr>"
  let ?visit = "[(''database'', hasPrefix ''prod''), (''query'', hasPrefix ''SELECT'')]"
  let ?visit' = "[(''query'', hasPrefix ''SELECT''), (''database'', hasPrefix ''prod'')]"
  let ?args1 = "[''database'' \<mapsto> StringVal ''prod'', ''query'' \<mapsto> StringVal ''DROP TABLE users'',
      ''extra'' \<mapsto> StringVal ''SELECT 1'']"
  let ?args2 = "[''database'' \<mapsto> StringVal ''prod'', ''query'' \<mapsto> StringVal ''DROP TABLE users'',
      ''note'' \<mapsto> BoolVal True]"
  have h3: "toolRules query_engine (ToLower latin1_lower (TrimSpace ''Run_Query'')) = Some ?rule"
    by (simp add: norm_Run_Query query_toolRules_run_query)
  let ?cargs = "[''query'' \<mapsto> hasPrefix ''SELECT'', ''database'' \<mapsto> hasPrefix ''prod'']"
  have e4: "entries ?cargs ?visit" by (simp add: entries_def fun_eq_iff)
  have e5: "entries ?cargs ?visit'" by (simp add: entries_def fun_eq_iff)
  have c: "compiledArgs ?rule = ?cargs" by simp
  from e4 c have h4: "entries (compiledArgs ?rule) ?visit" by (simp only:)
  from e5 c have h5: "entries (compiledArgs ?rule) ?visit'" by (simp only:)
  have dm: "dom (AllowArgs query_rule) = {''database'', ''query''}"
    by (auto simp: query_rule_AllowArgs)
  have h6: "\<forall>A \<in> dom (AllowArgs ?rule). ?args1 A = ?args2 A"
    by (simp add: dm)
  note r = C10_other_arguments_ignored[OF query_Load query_orders h3 h4 h5 h6, of nil_Sprintf_v]
  from r query_Load query_orders h3 e4 e5 dm show ?thesis by blast
qed

end
